theory Spec2Isabelle
  imports Main "HOL-Library.List_Lexorder" "HOL-Library.Product_Lexorder" "HOL-Library.Sublist"
begin

section \<open>Data model\<close>

text \<open>
  The embedding follows \<^verbatim>\<open>reviewer/app/GenotypePaths.cpp\<close>. The graphtools types it
  uses are declared outside the sources at hand, so they enter as follows.

  \<^item> \<^verbatim>\<open>NodeId\<close> is graphtools' unsigned 32-bit node identifier. It is a \<open>nat\<close> here, and
    the three places where the C++ arithmetic on it can wrap (\<^verbatim>\<open>++node\<close>,
    \<^verbatim>\<open>nodeId + 1\<close>, \<^verbatim>\<open>numNodes() - 1\<close>) carry the reduction modulo \<open>2 ^ 32\<close>.
  \<^item> \<^verbatim>\<open>Graph\<close> is a parameter: a record of the three observers the code calls
    (\<^verbatim>\<open>numNodes\<close>, \<^verbatim>\<open>nodeSeq\<close>, \<^verbatim>\<open>hasEdge\<close>).
  \<^item> \<^verbatim>\<open>Path\<close> is the four-field walk descriptor; its constructor is the record
    constructor (validity checks of graphtools are not part of the sources).
  \<^item> \<^verbatim>\<open>assert\<close> is a check: a failed assertion is the error \<open>AssertionFailed\<close>
    (a build with \<^verbatim>\<open>NDEBUG\<close> is not modelled).
\<close>

type_synonym NodeId = nat

definition nodeIdMax :: NodeId where
  \<comment> \<open>\<^verbatim>\<open>std::numeric_limits<NodeId>::max()\<close>; also the value of \<^verbatim>\<open>-1\<close> converted to \<^verbatim>\<open>NodeId\<close>\<close>
  "nodeIdMax = 4294967295"

definition nodeIdLowest :: NodeId where
  \<comment> \<open>\<^verbatim>\<open>std::numeric_limits<NodeId>::lowest()\<close>\<close>
  "nodeIdLowest = 0"

definition wrapNodeId :: "nat \<Rightarrow> NodeId" where
  \<comment> \<open>conversion of an unsigned value to the 32-bit \<^verbatim>\<open>NodeId\<close>\<close>
  "wrapNodeId n = n mod 4294967296"

record Graph =
  numNodes :: nat
  nodeSeq :: "NodeId \<Rightarrow> string"
  hasEdge :: "NodeId \<Rightarrow> NodeId \<Rightarrow> bool"

record Path =
  graphRawPtr :: Graph
  startPosition :: int
  nodeIds :: "NodeId list"
  endPosition :: int

type_synonym Diplotype = "Path list"

type_synonym NodeRange = "NodeId \<times> NodeId"
type_synonym Nodes = "NodeId list"
type_synonym NodeVector = "NodeId list"
type_synonym NodeVectors = "NodeVector list"

datatype VariantType = kRepeat | kSmallVariant

record VariantSpecification =
  variantId :: string
  classificationType :: VariantType
  variantNodes :: "NodeId list"

record LocusSpecification =
  regionGraph :: Graph
  variantSpecs :: "VariantSpecification list"

text \<open>
  Every \<^verbatim>\<open>throw\<close>, failed \<^verbatim>\<open>assert\<close> and undefined read of the source is a value of
  \<open>error\<close>. The three \<^verbatim>\<open>runtime_error\<close>s of \<^verbatim>\<open>extractRepeatLengths\<close> are told apart by
  their messages: \<open>IOError\<close> is "Unable to open file", \<open>NotFound\<close> is "No VCF record for",
  \<open>MissingGenotype\<close> is "Cannot create a plot because the genotype of ... is missing".
  \<open>UnsupportedVariantType\<close> is the \<^verbatim>\<open>logic_error\<close> on a small variant.
  \<open>InvalidArgument\<close> and \<open>OutOfRange\<close> are the two exceptions of \<^verbatim>\<open>std::stoi\<close>,
  \<open>LengthError\<close> is \<^verbatim>\<open>std::length_error\<close> of a vector constructed with a negative count,
  and \<open>UndefinedRead\<close> stands for a read the C++ standard leaves undefined (an index past
  the end of a vector, \<^verbatim>\<open>front()\<close> of an empty vector, the end iterator of a map).
\<close>

datatype error =
    IOError
  | NotFound
  | MissingGenotype
  | UnsupportedVariantType
  | InvalidArgument
  | OutOfRange
  | LengthError
  | AssertionFailed
  | UndefinedRead

section \<open>Reading the genotype of a repeat\<close>

text \<open>
  The file system is a parameter: \<open>fs vcfPath\<close> is \<open>None\<close> when the file cannot be
  opened and otherwise the lines that \<^verbatim>\<open>getline\<close> yields, in order.
\<close>

type_synonym FileSystem = "string \<Rightarrow> string list option"

fun find_first :: "string \<Rightarrow> string \<Rightarrow> bool" where
  \<comment> \<open>\<^verbatim>\<open>boost::find_first(line, query)\<close> as a truth value: \<open>query\<close> occurs in \<open>line\<close>\<close>
  "find_first [] query = (query = [])"
| "find_first (c # cs) query = (prefix query (c # cs) \<or> find_first cs query)"

fun split :: "char \<Rightarrow> string \<Rightarrow> string list" where
  \<comment> \<open>\<^verbatim>\<open>boost::split\<close> with one delimiter and no token compression\<close>
  "split d [] = [[]]"
| "split d (c # cs) =
     (if c = d then [] # split d cs
      else (case split d cs of [] \<Rightarrow> [[c]] | p # ps \<Rightarrow> (c # p) # ps))"

definition isspace :: "char \<Rightarrow> bool" where
  "isspace c = (c \<in> set [CHR '' '', CHR 0x09, CHR 0x0A, CHR 0x0B, CHR 0x0C, CHR 0x0D])"

definition isdigit :: "char \<Rightarrow> bool" where
  "isdigit c = (c \<in> set ''0123456789'')"

definition digitValue :: "char \<Rightarrow> int" where
  "digitValue c = int (of_char c) - 48"

fun decimalValue :: "int \<Rightarrow> string \<Rightarrow> int" where
  "decimalValue acc [] = acc"
| "decimalValue acc (c # cs) = decimalValue (acc * 10 + digitValue c) cs"

definition stoi :: "string \<Rightarrow> error + int" where
  \<comment> \<open>\<^verbatim>\<open>std::stoi\<close>, base 10: leading white space, an optional sign, the longest run of
      digits; what follows the digits is ignored\<close>
  "stoi s =
     (let s1 = dropWhile isspace s;
          negative = (s1 \<noteq> [] \<and> hd s1 = CHR ''-'');
          s2 = (if s1 \<noteq> [] \<and> (hd s1 = CHR ''-'' \<or> hd s1 = CHR ''+'') then tl s1 else s1);
          digits = takeWhile isdigit s2
      in if digits = [] then Inl InvalidArgument
         else (let v = (if negative then - decimalValue 0 digits else decimalValue 0 digits)
               in if v < - 2147483648 \<or> 2147483647 < v then Inl OutOfRange else Inr v))"

fun stoiAll :: "string list \<Rightarrow> error + int list" where
  \<comment> \<open>the loop \<^verbatim>\<open>for (sizeEncoding : pieces) sizes.push_back(stoi(sizeEncoding))\<close>\<close>
  "stoiAll [] = Inr []"
| "stoiAll (p # ps) =
     (case stoi p of
        Inl e \<Rightarrow> Inl e
      | Inr v \<Rightarrow> (case stoiAll ps of Inl e \<Rightarrow> Inl e | Inr vs \<Rightarrow> Inr (v # vs)))"

definition extractRepeatLengths :: "FileSystem \<Rightarrow> string \<Rightarrow> string \<Rightarrow> error + int list" where
  "extractRepeatLengths fs vcfPath repeatId =
     (case fs vcfPath of
        None \<Rightarrow> Inl IOError
      | Some lines \<Rightarrow>
          (let query = ''VARID='' @ repeatId @ '';'' in
           case find (\<lambda>line. find_first line query) lines of
             None \<Rightarrow> Inl NotFound
           | Some line \<Rightarrow>
               (let pieces = split (CHR 0x09) line;
                    sampleFields = last pieces;
                    pieces' = split (CHR '':'') sampleFields
                in if length pieces' \<le> 2 then Inl UndefinedRead
                   else (let genotypeEncoding = pieces' ! 2
                         in if genotypeEncoding = ''./.'' then Inl MissingGenotype
                            else stoiAll (split (CHR ''/'') genotypeEncoding)))))"

definition capLengths :: "int \<Rightarrow> int list \<Rightarrow> int list" where
  "capLengths upperBound lengths =
     map (\<lambda>length. if length \<le> upperBound then length else upperBound) lengths"

section \<open>Allele node vectors of every variant\<close>

text \<open>
  \<^verbatim>\<open>std::map<NodeRange, NodeVectors>\<close> is an association list kept in ascending key order
  (pairs compare lexicographically); \<^verbatim>\<open>emplace\<close> leaves the map as it is when the key is
  already there. Iteration is from the head, so \<^verbatim>\<open>begin()\<close> is the head.
\<close>

type_synonym RangeMap = "(NodeRange \<times> NodeVectors) list"

fun emplace :: "NodeRange \<Rightarrow> NodeVectors \<Rightarrow> RangeMap \<Rightarrow> RangeMap" where
  "emplace k v [] = [(k, v)]"
| "emplace k v ((k', v') # m) =
     (if k = k' then (k', v') # m
      else if k < k' then (k, v) # (k', v') # m
      else (k', v') # emplace k v m)"

fun makeNodeVectors :: "int list \<Rightarrow> NodeId \<Rightarrow> error + NodeVectors" where
  \<comment> \<open>the loop \<^verbatim>\<open>genotypeNodes.emplace_back(repeatLen, repeatNode)\<close>: a vector of
      \<open>repeatLen\<close> copies; a negative count converts to a size beyond \<^verbatim>\<open>max_size()\<close>\<close>
  "makeNodeVectors [] repeatNode = Inr []"
| "makeNodeVectors (repeatLen # repeatLens) repeatNode =
     (if repeatLen < 0 then Inl LengthError
      else (case makeNodeVectors repeatLens repeatNode of
              Inl e \<Rightarrow> Inl e
            | Inr vs \<Rightarrow> Inr (replicate (nat repeatLen) repeatNode # vs)))"

fun nodeRangeOf :: "NodeId list \<Rightarrow> NodeRange \<Rightarrow> NodeRange" where
  \<comment> \<open>the loop over \<^verbatim>\<open>variantSpec.nodes()\<close> that skips the marker \<^verbatim>\<open>-1\<close>\<close>
  "nodeRangeOf [] (nodeRangeFrom, nodeRangeTo) = (nodeRangeFrom, nodeRangeTo)"
| "nodeRangeOf (node # nodes) (nodeRangeFrom, nodeRangeTo) =
     (if node \<noteq> nodeIdMax
      then nodeRangeOf nodes (min nodeRangeFrom node, max nodeRangeTo node)
      else nodeRangeOf nodes (nodeRangeFrom, nodeRangeTo))"

definition variantGenotypeNodes ::
  "int \<Rightarrow> FileSystem \<Rightarrow> string \<Rightarrow> VariantSpecification \<Rightarrow> error + (NodeRange \<times> NodeVectors)" where
  \<comment> \<open>the body of the loop of \<^verbatim>\<open>getGenotypeNodesByNodeRange\<close> for one variant\<close>
  "variantGenotypeNodes meanFragLen fs vcfPath variantSpec =
     (if classificationType variantSpec = kSmallVariant then Inl UnsupportedVariantType
      else if classificationType variantSpec \<noteq> kRepeat then Inl AssertionFailed
      else if length (variantNodes variantSpec) \<noteq> 1 then Inl AssertionFailed
      else (let repeatNode = hd (variantNodes variantSpec) in
            case extractRepeatLengths fs vcfPath (variantId variantSpec) of
              Inl e \<Rightarrow> Inl e
            | Inr repeatLens \<Rightarrow>
                (case makeNodeVectors (capLengths meanFragLen repeatLens) repeatNode of
                   Inl e \<Rightarrow> Inl e
                 | Inr genotypeNodes \<Rightarrow>
                     (let nodeRange = nodeRangeOf (variantNodes variantSpec) (nodeIdMax, nodeIdLowest)
                      in if 2 < length genotypeNodes then Inl AssertionFailed
                         else Inr (nodeRange, genotypeNodes)))))"

fun genotypeNodesLoop ::
  "int \<Rightarrow> FileSystem \<Rightarrow> string \<Rightarrow> VariantSpecification list \<Rightarrow> RangeMap \<Rightarrow> error + RangeMap" where
  "genotypeNodesLoop meanFragLen fs vcfPath [] genotypeNodesByNodeRange = Inr genotypeNodesByNodeRange"
| "genotypeNodesLoop meanFragLen fs vcfPath (variantSpec # rest) genotypeNodesByNodeRange =
     (case variantGenotypeNodes meanFragLen fs vcfPath variantSpec of
        Inl e \<Rightarrow> Inl e
      | Inr (nodeRange, genotypeNodes) \<Rightarrow>
          genotypeNodesLoop meanFragLen fs vcfPath rest
            (emplace nodeRange genotypeNodes genotypeNodesByNodeRange))"

definition getGenotypeNodesByNodeRange ::
  "int \<Rightarrow> FileSystem \<Rightarrow> string \<Rightarrow> LocusSpecification \<Rightarrow> error + RangeMap" where
  "getGenotypeNodesByNodeRange meanFragLen fs vcfPath locusSpec =
     genotypeNodesLoop meanFragLen fs vcfPath (variantSpecs locusSpec) []"

fun getVariantGenotypeNodes :: "RangeMap \<Rightarrow> NodeId \<Rightarrow> error + (NodeVectors \<times> NodeId) option" where
  "getVariantGenotypeNodes [] node = Inr None"
| "getVariantGenotypeNodes ((nodeRange, paths) # rest) node =
     (if fst nodeRange \<le> node \<and> node \<le> snd nodeRange
      then (if 2 < length paths then Inl AssertionFailed else Inr (Some (paths, snd nodeRange)))
      else getVariantGenotypeNodes rest node)"

section \<open>Enumerating the diplotypes\<close>

definition extendOne :: "NodeVectors \<Rightarrow> NodeVectors \<Rightarrow> error + NodeVectors list" where
  \<comment> \<open>the body of the loop of \<^verbatim>\<open>extendDiplotype\<close>: the children of one genotype\<close>
  "extendOne genotype genotypeExtension =
     (if length genotype \<noteq> length genotypeExtension then Inl AssertionFailed
      else if length genotype = 1
      then (let haplotypeExtension = hd genotypeExtension;
                extendedHaplotype = hd genotype @ haplotypeExtension
            in Inr [[extendedHaplotype]])
      else if length genotype \<noteq> 2 then Inl AssertionFailed
      else (let hap1Ext1 = hd genotype @ hd genotypeExtension;
                hap2Ext2 = last genotype @ last genotypeExtension;
                hap1Ext2 = hd genotype @ last genotypeExtension;
                hap2Ext1 = last genotype @ hd genotypeExtension
            in Inr [[hap1Ext1, hap2Ext2], [hap1Ext2, hap2Ext1]]))"

fun extendDiplotype :: "NodeVectors list \<Rightarrow> NodeVectors \<Rightarrow> error + NodeVectors list" where
  "extendDiplotype [] genotypeExtension = Inr []"
| "extendDiplotype (genotype # genotypes) genotypeExtension =
     (case extendOne genotype genotypeExtension of
        Inl e \<Rightarrow> Inl e
      | Inr children \<Rightarrow>
          (case extendDiplotype genotypes genotypeExtension of
             Inl e \<Rightarrow> Inl e
           | Inr extendedGenotype \<Rightarrow> Inr (children @ extendedGenotype)))"

definition appendNode :: "NodeId \<Rightarrow> NodeVectors list \<Rightarrow> NodeVectors list" where
  \<comment> \<open>the two nested loops that \<^verbatim>\<open>push_back(node)\<close> onto every haplotype\<close>
  "appendNode node nodesByDiplotype =
     map (map (\<lambda>haplotypeNodes. haplotypeNodes @ [node])) nodesByDiplotype"

definition walkStep :: "RangeMap \<Rightarrow> NodeId \<Rightarrow> NodeVectors list \<Rightarrow> error + (NodeId \<times> NodeVectors list)" where
  \<comment> \<open>one pass through the body of the \<^verbatim>\<open>while\<close> loop, \<^verbatim>\<open>++node\<close> included\<close>
  "walkStep genotypeNodesByNodeRange node nodesByDiplotype =
     (case getVariantGenotypeNodes genotypeNodesByNodeRange node of
        Inl e \<Rightarrow> Inl e
      | Inr (Some variantPathNodesAndLastNode) \<Rightarrow>
          (case extendDiplotype nodesByDiplotype (fst variantPathNodesAndLastNode) of
             Inl e \<Rightarrow> Inl e
           | Inr extended \<Rightarrow> Inr (wrapNodeId (snd variantPathNodesAndLastNode + 1), extended))
      | Inr None \<Rightarrow> Inr (wrapNodeId (node + 1), appendNode node nodesByDiplotype))"

text \<open>
  The loop \<^verbatim>\<open>while (node != numNodes())\<close> has no bound of its own: a region that ends at
  or after the last node carries \<open>node\<close> past \<open>numNodes\<close>. Not returning is the value \<open>None\<close>.
\<close>

partial_function (option) walk ::
  "nat \<Rightarrow> RangeMap \<Rightarrow> NodeId \<Rightarrow> NodeVectors list \<Rightarrow> (error + NodeVectors list) option" where
  "walk n genotypeNodesByNodeRange node nodesByDiplotype =
     (if node = n then Some (Inr nodesByDiplotype)
      else (case walkStep genotypeNodesByNodeRange node nodesByDiplotype of
              Inl e \<Rightarrow> Some (Inl e)
            | Inr (node', nodesByDiplotype') \<Rightarrow> walk n genotypeNodesByNodeRange node' nodesByDiplotype'))"

fun walkStates ::
  "nat \<Rightarrow> nat \<Rightarrow> RangeMap \<Rightarrow> NodeId \<Rightarrow> NodeVectors list \<Rightarrow> (NodeId \<times> NodeVectors list) list" where
  \<comment> \<open>the states \<open>(node, nodesByDiplotype)\<close> at the loop head during the first \<open>k\<close> passes\<close>
  "walkStates 0 n genotypeNodesByNodeRange node nodesByDiplotype = [(node, nodesByDiplotype)]"
| "walkStates (Suc k) n genotypeNodesByNodeRange node nodesByDiplotype =
     (node, nodesByDiplotype) #
     (if node = n then []
      else (case walkStep genotypeNodesByNodeRange node nodesByDiplotype of
              Inl e \<Rightarrow> []
            | Inr (node', nodesByDiplotype') \<Rightarrow> walkStates k n genotypeNodesByNodeRange node' nodesByDiplotype'))"

subsection \<open>Paths and their order\<close>

definition pathKey :: "Path \<Rightarrow> int \<times> NodeId list \<times> int" where
  "pathKey p = (startPosition p, nodeIds p, endPosition p)"

definition pathLess :: "Path \<Rightarrow> Path \<Rightarrow> bool" where
  \<comment> \<open>Modelled from the spec: \<^verbatim>\<open>Path::operator<\<close> of graphtools is not part of the sources;
      the order is lexicographic over (start offset, node-id sequence, end offset).\<close>
  "pathLess p q = (pathKey p < pathKey q)"

definition diplotypeLess :: "Diplotype \<Rightarrow> Diplotype \<Rightarrow> bool" where
  \<comment> \<open>\<^verbatim>\<open>operator<\<close> of \<^verbatim>\<open>std::vector<Path>\<close>: lexicographic with \<open>pathLess\<close> on the elements\<close>
  "diplotypeLess d e = (map pathKey d < map pathKey e)"

definition rightFlankNodeOf :: "Graph \<Rightarrow> NodeId" where
  \<comment> \<open>\<^verbatim>\<open>numNodes() - 1\<close> in \<^verbatim>\<open>size_t\<close>, converted to \<^verbatim>\<open>NodeId\<close>\<close>
  "rightFlankNodeOf g = (if numNodes g = 0 then nodeIdMax else wrapNodeId (numNodes g - 1))"

definition swapHaplotypes :: "Diplotype \<Rightarrow> Diplotype" where
  \<comment> \<open>\<^verbatim>\<open>std::iter_swap(diplotype.begin(), diplotype.end() - 1)\<close>\<close>
  "swapHaplotypes diplotype =
     diplotype[0 := last diplotype, length diplotype - 1 := hd diplotype]"

definition makeDiplotype :: "Graph \<Rightarrow> int \<Rightarrow> NodeVectors \<Rightarrow> error + Diplotype" where
  \<comment> \<open>the body of the loop over \<open>nodesByDiplotype\<close>: the paths of the haplotypes, then the
      swap of the first and the last one when the first is the smaller\<close>
  "makeDiplotype g rightFlankLength diplotypeNodes =
     (let diplotype =
            map (\<lambda>haplotypeNodes.
                   \<lparr>graphRawPtr = g, startPosition = 0, nodeIds = haplotypeNodes,
                    endPosition = rightFlankLength\<rparr>) diplotypeNodes
      in if diplotype = [] then Inl UndefinedRead
         else if pathLess (hd diplotype) (last diplotype)
         then Inr (swapHaplotypes diplotype)
         else Inr diplotype)"

fun makeDiplotypes :: "Graph \<Rightarrow> int \<Rightarrow> NodeVectors list \<Rightarrow> error + Diplotype list" where
  "makeDiplotypes g rightFlankLength [] = Inr []"
| "makeDiplotypes g rightFlankLength (diplotypeNodes # rest) =
     (case makeDiplotype g rightFlankLength diplotypeNodes of
        Inl e \<Rightarrow> Inl e
      | Inr diplotype \<Rightarrow>
          (case makeDiplotypes g rightFlankLength rest of
             Inl e \<Rightarrow> Inl e
           | Inr diplotypes \<Rightarrow> Inr (diplotype # diplotypes)))"

text \<open>
  \<^verbatim>\<open>std::sort\<close> orders by \<open>diplotypeLess\<close> and \<^verbatim>\<open>std::unique\<close> drops an element equal to
  its predecessor; two paths are equal when their four fields are. All paths of one run
  point to the same graph, so two diplotypes that are equivalent for the order are equal
  and the sorted sequence is the one \<open>sort_key\<close> computes.
\<close>

definition sortUnique :: "Diplotype list \<Rightarrow> Diplotype list" where
  "sortUnique diplotypes = remdups_adj (sort_key (map pathKey) diplotypes)"

definition getCandidateDiplotypes ::
  "int \<Rightarrow> FileSystem \<Rightarrow> string \<Rightarrow> LocusSpecification \<Rightarrow> (error + Diplotype list) option" where
  "getCandidateDiplotypes meanFragLen fs vcfPath locusSpec =
     (case getGenotypeNodesByNodeRange meanFragLen fs vcfPath locusSpec of
        Inl e \<Rightarrow> Some (Inl e)
      | Inr genotypeNodesByNodeRange \<Rightarrow>
          (case genotypeNodesByNodeRange of
             [] \<Rightarrow> Some (Inl UndefinedRead)
           | first # _ \<Rightarrow>
               (let numAlleles = length (snd first);
                    g = regionGraph locusSpec
                in case walk (numNodes g) genotypeNodesByNodeRange 1 [replicate numAlleles [0]] of
                     None \<Rightarrow> None
                   | Some (Inl e) \<Rightarrow> Some (Inl e)
                   | Some (Inr nodesByDiplotype) \<Rightarrow>
                       (let rightFlankNode = rightFlankNodeOf g;
                            rightFlankLength = int (length (nodeSeq g rightFlankNode))
                        in case makeDiplotypes g rightFlankLength nodesByDiplotype of
                             Inl e \<Rightarrow> Some (Inl e)
                           | Inr diplotypes \<Rightarrow> Some (Inr (sortUnique diplotypes))))))"

section \<open>Summaries\<close>

function natString :: "nat \<Rightarrow> string" where
  "natString n =
     (if n < 10 then [''0123456789'' ! n]
      else natString (n div 10) @ [''0123456789'' ! (n mod 10)])"
  by pat_completeness auto
termination
  by (relation "measure id") auto

definition to_string :: "int \<Rightarrow> string" where
  \<comment> \<open>\<^verbatim>\<open>std::to_string(int)\<close>\<close>
  "to_string i = (if i < 0 then CHR ''-'' # natString (nat (- i)) else natString (nat i))"

fun summarizeLoop :: "Graph \<Rightarrow> NodeId list \<Rightarrow> NodeId list \<Rightarrow> NodeId set \<Rightarrow> string \<Rightarrow> error + string" where
  \<comment> \<open>the loop of \<^verbatim>\<open>summarizePath\<close> over the node ids still to visit; \<open>pathNodeIds\<close> are
      all node ids of the path\<close>
  "summarizeLoop graph pathNodeIds [] observedNodes summary = Inr summary"
| "summarizeLoop graph pathNodeIds (nodeId # rest) observedNodes summary =
     (if nodeId \<in> observedNodes then summarizeLoop graph pathNodeIds rest observedNodes summary
      else (let isLoopNode = hasEdge graph nodeId nodeId in
            if nodeId = 0
            then summarizeLoop graph pathNodeIds rest (insert nodeId observedNodes) (summary @ ''(LF)'')
            else if wrapNodeId (nodeId + 1) = numNodes graph
            then summarizeLoop graph pathNodeIds rest (insert nodeId observedNodes) (summary @ ''(RF)'')
            else if numNodes graph = 0 then Inl AssertionFailed
            else (let nodeSeq = nodeSeq graph nodeId;
                      summary' = summary @ ''('' @ nodeSeq @ '')'';
                      summary'' =
                        (if isLoopNode
                         then (let numMotifs = int (count_list pathNodeIds nodeId)
                               in summary' @ ''{'' @ to_string numMotifs @ ''}'')
                         else summary')
                  in summarizeLoop graph pathNodeIds rest (insert nodeId observedNodes) summary'')))"

definition summarizePath :: "Path \<Rightarrow> error + string" where
  "summarizePath path = summarizeLoop (graphRawPtr path) (nodeIds path) (nodeIds path) {} []"

definition printDiplotype :: "Diplotype \<Rightarrow> error + string" where
  \<comment> \<open>\<^verbatim>\<open>operator<<(std::ostream&, const Diplotype&)\<close>: the text written to the stream\<close>
  "printDiplotype diplotype =
     (if diplotype = [] then Inl UndefinedRead
      else (case summarizePath (hd diplotype) of
              Inl e \<Rightarrow> Inl e
            | Inr front \<Rightarrow>
                if length diplotype = 2
                then (case summarizePath (last diplotype) of
                        Inl e \<Rightarrow> Inl e
                      | Inr back \<Rightarrow> Inr (front @ ''/'' @ back))
                else Inr front))"

section \<open>The k-mer index\<close>

text \<open>
  \<^verbatim>\<open>KmerIndex\<close> of graphtools is not part of the sources; only its unit tests are. The
  index is taken as what its tests construct it from (\<^verbatim>\<open>StringToPathsMap\<close>): the k-mers
  with the list of their occurrence paths.
\<close>

type_synonym KmerIndex = "(string \<times> Path list) list"

definition pathVisitsNode :: "Path \<Rightarrow> NodeId \<Rightarrow> bool" where
  "pathVisitsNode p n = (n \<in> set (nodeIds p))"

definition pathTraversesEdge :: "Path \<Rightarrow> NodeId \<Rightarrow> NodeId \<Rightarrow> bool" where
  \<comment> \<open>\<open>u\<close> and \<open>v\<close> are consecutive node ids of the path\<close>
  "pathTraversesEdge p u v = ((u, v) \<in> set (zip (nodeIds p) (tl (nodeIds p))))"

definition uniqueKmersOverlappingEdge :: "KmerIndex \<Rightarrow> NodeId \<Rightarrow> NodeId \<Rightarrow> nat" where
  \<comment> \<open>Modelled from the spec: the query of \<^verbatim>\<open>KmerIndex\<close> is not part of the sources; it counts
      the distinct k-mer strings some occurrence path of which traverses the edge.\<close>
  "uniqueKmersOverlappingEdge index u v =
     card (set (map fst (filter (\<lambda>(kmer, paths). \<exists>p\<in>set paths. pathTraversesEdge p u v) index)))"

definition uniqueKmersOverlappingNode :: "KmerIndex \<Rightarrow> NodeId \<Rightarrow> nat" where
  \<comment> \<open>Modelled from the spec: the query of \<^verbatim>\<open>KmerIndex\<close> is not part of the sources; it counts
      the distinct k-mer strings some occurrence path of which visits the node.\<close>
  "uniqueKmersOverlappingNode index n =
     card (set (map fst (filter (\<lambda>(kmer, paths). \<exists>p\<in>set paths. pathVisitsNode p n) index)))"

text \<open>
  The expected values of the test \<^verbatim>\<open>UniqueKmerCounting.TypicalIndex_UniqueKmersCounted\<close>
  are those of a narrower count: only the k-mers with exactly one occurrence path count.
  The next two definitions are that reading.
\<close>

definition singleOccurrenceKmersOverlappingEdge :: "KmerIndex \<Rightarrow> NodeId \<Rightarrow> NodeId \<Rightarrow> nat" where
  "singleOccurrenceKmersOverlappingEdge index u v =
     card (set (map fst (filter (\<lambda>(kmer, paths).
        length paths = 1 \<and> (\<exists>p\<in>set paths. pathTraversesEdge p u v)) index)))"

definition singleOccurrenceKmersOverlappingNode :: "KmerIndex \<Rightarrow> NodeId \<Rightarrow> nat" where
  "singleOccurrenceKmersOverlappingNode index n =
     card (set (map fst (filter (\<lambda>(kmer, paths).
        length paths = 1 \<and> (\<exists>p\<in>set paths. pathVisitsNode p n)) index)))"

section \<open>Notions used in the statements\<close>

definition haplotypePath :: "Graph \<Rightarrow> NodeId list \<Rightarrow> Path" where
  \<comment> \<open>the path \<^verbatim>\<open>Path(&graph, 0, haplotypeNodes, rightFlankLength)\<close> of a haplotype\<close>
  "haplotypePath g nodes =
     \<lparr>graphRawPtr = g, startPosition = 0, nodeIds = nodes,
      endPosition = int (length (nodeSeq g (rightFlankNodeOf g)))\<rparr>"

definition pathOn :: "Graph \<Rightarrow> int \<Rightarrow> Path \<Rightarrow> bool" where
  \<comment> \<open>a path of graph \<open>g\<close> from offset 0 to offset \<open>r\<close>\<close>
  "pathOn g r p = (graphRawPtr p = g \<and> startPosition p = 0 \<and> endPosition p = r)"

subsection \<open>The summary in words\<close>

fun firstVisits :: "NodeId list \<Rightarrow> NodeId list" where
  \<comment> \<open>the distinct node ids of a path, each at the place of its first visit\<close>
  "firstVisits [] = []"
| "firstVisits (n # ns) = n # filter (\<lambda>m. m \<noteq> n) (firstVisits ns)"

definition firstIndex :: "NodeId list \<Rightarrow> NodeId \<Rightarrow> nat" where
  \<comment> \<open>the position of the first visit of \<open>n\<close>\<close>
  "firstIndex ns n = length (takeWhile (\<lambda>m. m \<noteq> n) ns)"

definition renderNode :: "Graph \<Rightarrow> NodeId list \<Rightarrow> NodeId \<Rightarrow> string" where
  \<comment> \<open>how one node is rendered: left flank, right flank, repeat with its number of visits
      on the whole path, or plain sequence\<close>
  "renderNode g pathNodeIds n =
     (if n = 0 then ''(LF)''
      else if n = numNodes g - 1 then ''(RF)''
      else if hasEdge g n n
      then ''('' @ nodeSeq g n @ '')'' @ ''{'' @ to_string (int (count_list pathNodeIds n)) @ ''}''
      else ''('' @ nodeSeq g n @ '')'')"

subsection \<open>The call record of a variant\<close>

definition matchingRecord :: "FileSystem \<Rightarrow> string \<Rightarrow> string \<Rightarrow> string option" where
  \<comment> \<open>the first line of the file that contains \<^verbatim>\<open>VARID=<repeatId>;\<close>\<close>
  "matchingRecord fs vcfPath repeatId =
     (case fs vcfPath of
        None \<Rightarrow> None
      | Some lines \<Rightarrow> find (\<lambda>line. find_first line (''VARID='' @ repeatId @ '';'')) lines)"

definition sampleFieldsOf :: "string \<Rightarrow> string list" where
  \<comment> \<open>the colon-delimited fields of the last tab-separated column\<close>
  "sampleFieldsOf line = split (CHR '':'') (last (split (CHR 0x09) line))"

definition isNumber :: "string \<Rightarrow> bool" where
  \<comment> \<open>a non-empty string of decimal digits\<close>
  "isNumber s = (s \<noteq> [] \<and> list_all isdigit s)"

definition genotypeEncodingWellFormed :: "string \<Rightarrow> bool" where
  \<comment> \<open>the genotype encoding of the call source: \<^verbatim>\<open>a\<close>, \<^verbatim>\<open>a/b\<close> with non-negative integers
      \<^verbatim>\<open>a\<close> and \<^verbatim>\<open>b\<close>, or the no-call \<^verbatim>\<open>./.\<close>\<close>
  "genotypeEncodingWellFormed encoding =
     (encoding = ''./.'' \<or>
      (let pieces = split (CHR ''/'') encoding
       in (length pieces = 1 \<or> length pieces = 2) \<and> list_all isNumber pieces))"

subsection \<open>Sample inputs\<close>

text \<open>
  The locus of the worked example: left flank, the repeat node with motif CAG and a
  self-loop, right flank; one call record with repeat counts 3/4.
\<close>

definition exampleGraph :: Graph where
  "exampleGraph =
     \<lparr>numNodes = 3,
      nodeSeq = (\<lambda>n. if n = 0 then ''GCTGA'' else if n = 1 then ''CAG'' else if n = 2 then ''CAACAG'' else []),
      hasEdge = (\<lambda>u v. (u, v) \<in> set [(0, 1), (1, 1), (1, 2)])\<rparr>"

definition exampleRecord :: string where
  "exampleRecord =
     ''chr4'' @ [CHR 0x09] @ ''3074876'' @ [CHR 0x09] @ ''.'' @ [CHR 0x09] @ ''C'' @ [CHR 0x09] @
     ''<STR3>,<STR4>'' @ [CHR 0x09] @ ''.'' @ [CHR 0x09] @ ''PASS'' @ [CHR 0x09] @
     ''END=3074933;REF=19;RL=57;RU=CAG;VARID=HTT;REPID=HTT'' @ [CHR 0x09] @
     ''GT:SO:REPCN:REPCI'' @ [CHR 0x09] @ ''1/2:SPANNING/SPANNING:3/4:3-3/4-4''"

definition exampleFs :: FileSystem where
  "exampleFs = (\<lambda>path. if path = ''sample.vcf'' then Some [''##fileformat=VCFv4.1'', exampleRecord] else None)"

definition exampleLocus :: LocusSpecification where
  "exampleLocus =
     \<lparr>regionGraph = exampleGraph,
      variantSpecs = [\<lparr>variantId = ''HTT'', classificationType = kRepeat, variantNodes = [1]\<rparr>]\<rparr>"

text \<open>A call file with a no-call.\<close>

definition noCallFs :: FileSystem where
  "noCallFs =
     (\<lambda>path. if path = ''sample.vcf''
             then Some [''chr4'' @ [CHR 0x09] @ ''VARID=HTT;RU=CAG'' @ [CHR 0x09] @ ''GT:SO:REPCN'' @
                        [CHR 0x09] @ ''./.:./.:./.'']
             else None)"

text \<open>A locus with a small variant behind a repeat, and a locus without variants.\<close>

definition mixedLocus :: LocusSpecification where
  "mixedLocus =
     \<lparr>regionGraph = exampleGraph,
      variantSpecs = [\<lparr>variantId = ''HTT'', classificationType = kRepeat, variantNodes = [1]\<rparr>,
                      \<lparr>variantId = ''SNV'', classificationType = kSmallVariant, variantNodes = [2]\<rparr>]\<rparr>"

definition emptyLocus :: LocusSpecification where
  "emptyLocus = \<lparr>regionGraph = exampleGraph, variantSpecs = []\<rparr>"

text \<open>
  The graph of \<^verbatim>\<open>makeDeletionGraph\<close> (left flank, deletion, right flank), the index
  that the test \<^verbatim>\<open>KmerIndexInitialization.2mers_IndexCreated\<close> expects for the graph
  AK/GG/CAG, and the 3-mers and their occurrence paths of the graph AC/GG/ACG of the test
  \<^verbatim>\<open>UniqueKmerCounting.TypicalIndex_UniqueKmersCounted\<close>.
\<close>

definition deletionGraph :: "string \<Rightarrow> string \<Rightarrow> string \<Rightarrow> Graph" where
  "deletionGraph left_flank deletion right_flank =
     \<lparr>numNodes = 3,
      nodeSeq = (\<lambda>n. if n = 0 then left_flank else if n = 1 then deletion else if n = 2 then right_flank else []),
      hasEdge = (\<lambda>u v. (u, v) \<in> set [(0, 1), (0, 2), (1, 2)])\<rparr>"

definition kmerPath :: "Graph \<Rightarrow> int \<Rightarrow> NodeId list \<Rightarrow> int \<Rightarrow> Path" where
  \<comment> \<open>\<^verbatim>\<open>Path(&graph, start, {nodes}, end)\<close> as the tests write it\<close>
  "kmerPath g startPos nodes endPos =
     \<lparr>graphRawPtr = g, startPosition = startPos, nodeIds = nodes, endPosition = endPos\<rparr>"

definition twoMerIndex :: KmerIndex where
  "twoMerIndex =
     (let graph = deletionGraph ''AK'' ''GG'' ''CAG'' in
      [(''AG'', [kmerPath graph 0 [0] 2, kmerPath graph 1 [2] 3]),
       (''AT'', [kmerPath graph 0 [0] 2]),
       (''GG'', [kmerPath graph 1 [0, 1] 1, kmerPath graph 0 [1] 2]),
       (''TG'', [kmerPath graph 1 [0, 1] 1]),
       (''GC'', [kmerPath graph 1 [0, 2] 1, kmerPath graph 1 [1, 2] 1]),
       (''TC'', [kmerPath graph 1 [0, 2] 1]),
       (''CA'', [kmerPath graph 0 [2] 2])])"

definition threeMerIndex :: KmerIndex where
  "threeMerIndex =
     (let graph = deletionGraph ''AC'' ''GG'' ''ACG'' in
      [(''ACG'', [kmerPath graph 0 [0, 1] 1, kmerPath graph 0 [2] 3]),
       (''ACA'', [kmerPath graph 0 [0, 2] 1]),
       (''CGG'', [kmerPath graph 1 [0, 1] 2]),
       (''CAC'', [kmerPath graph 1 [0, 2] 2]),
       (''GGA'', [kmerPath graph 0 [1, 2] 1]),
       (''GAC'', [kmerPath graph 1 [1, 2] 2])])"

section \<open>Properties\<close>

subsection \<open>Evaluation helpers\<close>

lemma replicate_numeral: "replicate (numeral k) x = x # replicate (pred_numeral k) x"
  by (simp add: numeral_eq_Suc)

lemma walk_step:
  "node \<noteq> n \<Longrightarrow> walkStep m node ds = Inr (node', ds') \<Longrightarrow> walk n m node ds = walk n m node' ds'"
  by (subst walk.simps) simp

lemma walk_done: "walk n m n ds = Some (Inr ds)"
  by (subst walk.simps) simp

subsection \<open>Extension of the candidates at a variant region\<close>

lemma extendOne_two:
  "length genotype = 2 \<Longrightarrow>
   extendOne genotype [allele1, allele2] =
     Inr [[genotype ! 0 @ allele1, genotype ! 1 @ allele2], [genotype ! 0 @ allele2, genotype ! 1 @ allele1]]"
  by (cases genotype; cases "tl genotype") (auto simp: extendOne_def)

lemma extendOne_one:
  "length genotype = 1 \<Longrightarrow> extendOne genotype [allele] = Inr [[genotype ! 0 @ allele]]"
  by (cases genotype) (auto simp: extendOne_def)

lemma extendDiplotype_two:
  "\<forall>genotype\<in>set genotypes. length genotype = 2 \<Longrightarrow>
   extendDiplotype genotypes [allele1, allele2] =
     Inr (concat (map (\<lambda>genotype. [[genotype ! 0 @ allele1, genotype ! 1 @ allele2],
                                   [genotype ! 0 @ allele2, genotype ! 1 @ allele1]]) genotypes))"
  by (induction genotypes) (simp_all add: extendOne_two)

lemma extendDiplotype_one:
  "\<forall>genotype\<in>set genotypes. length genotype = 1 \<Longrightarrow>
   extendDiplotype genotypes [allele] = Inr (map (\<lambda>genotype. [genotype ! 0 @ allele]) genotypes)"
  by (induction genotypes) (simp_all add: extendOne_one)

text \<open>
  C1. At a region with two alleles every candidate diplotype (two haplotypes) has exactly
  two children, one per phase: allele 1 on haplotype 1 with allele 2 on haplotype 2, and
  allele 2 on haplotype 1 with allele 1 on haplotype 2. At a region with one allele every
  candidate (one haplotype) has exactly one child, the haplotype followed by the allele.
  The walk applies this extension at a node inside a region and continues after the
  region's last node.
\<close>

theorem extendDiplotype_both_phases:
  "((\<forall>genotype\<in>set genotypes. length genotype = 2) \<longrightarrow>
      extendDiplotype genotypes [allele1, allele2] =
        Inr (concat (map (\<lambda>genotype. [[genotype ! 0 @ allele1, genotype ! 1 @ allele2],
                                      [genotype ! 0 @ allele2, genotype ! 1 @ allele1]]) genotypes))) \<and>
   ((\<forall>genotype\<in>set genotypes. length genotype = 1) \<longrightarrow>
      extendDiplotype genotypes [allele] = Inr (map (\<lambda>genotype. [genotype ! 0 @ allele]) genotypes)) \<and>
   (getVariantGenotypeNodes genotypeNodesByNodeRange node = Inr (Some (alleles, lastNode)) \<longrightarrow>
      walkStep genotypeNodesByNodeRange node genotypes =
        (case extendDiplotype genotypes alleles of
           Inl e \<Rightarrow> Inl e
         | Inr extended \<Rightarrow> Inr (wrapNodeId (lastNode + 1), extended)))"
  by (simp add: extendDiplotype_two extendDiplotype_one walkStep_def split: sum.splits)

theorem extendDiplotype_both_phases_witness:
  "extendDiplotype [[[0], [0]]] [[1, 1, 1], [1, 1, 1, 1]] =
     Inr [[[0, 1, 1, 1], [0, 1, 1, 1, 1]], [[0, 1, 1, 1, 1], [0, 1, 1, 1]]] \<and>
   extendDiplotype [[[0]], [[0, 7]]] [[1, 1]] = Inr [[[0, 1, 1]], [[0, 7, 1, 1]]] \<and>
   walkStep [((1, 1), [[1, 1, 1], [1, 1, 1, 1]])] 1 [[[0], [0]]] =
     Inr (2, [[[0, 1, 1, 1], [0, 1, 1, 1, 1]], [[0, 1, 1, 1, 1], [0, 1, 1, 1]]])"
  using extendDiplotype_both_phases [of "[[[0], [0]]]" "[1, 1, 1]" "[1, 1, 1, 1]" "[1, 1]"
      "[((1, 1), [[1, 1, 1], [1, 1, 1, 1]])]" 1 "[[1, 1, 1], [1, 1, 1, 1]]" 1]
    extendDiplotype_both_phases [of "[[[0]], [[0, 7]]]" "[1, 1, 1]" "[1, 1, 1, 1]" "[1, 1]"
      "[]" 1 "[]" 1]
  by (simp add: wrapNodeId_def)

subsection \<open>Capping of the repeat lengths\<close>

lemma makeNodeVectors_success:
  "makeNodeVectors lens repeatNode = Inr vs \<Longrightarrow>
   (\<forall>l\<in>set lens. 0 \<le> l) \<and> vs = map (\<lambda>l. replicate (nat l) repeatNode) lens"
  by (induction lens arbitrary: vs) (auto split: if_splits sum.splits)

lemma makeNodeVectors_nonneg:
  "\<forall>l\<in>set lens. 0 \<le> l \<Longrightarrow> makeNodeVectors lens repeatNode = Inr (map (\<lambda>l. replicate (nat l) repeatNode) lens)"
  by (induction lens) auto

lemma makeNodeVectors_capped:
  "(makeNodeVectors (capLengths bound lengths) repeatNode = Inr vs \<longrightarrow>
      length vs = length lengths \<and>
      (\<forall>i<length lengths.
         (bound < lengths ! i \<longrightarrow> vs ! i = replicate (nat bound) repeatNode \<and> int (length (vs ! i)) = bound) \<and>
         (lengths ! i \<le> bound \<longrightarrow>
            vs ! i = replicate (nat (lengths ! i)) repeatNode \<and> int (length (vs ! i)) = lengths ! i))) \<and>
   (0 \<le> bound \<and> (\<forall>l\<in>set lengths. 0 \<le> l) \<longrightarrow>
      (\<exists>vs. makeNodeVectors (capLengths bound lengths) repeatNode = Inr vs))"
proof (intro conjI impI)
  assume ok: "makeNodeVectors (capLengths bound lengths) repeatNode = Inr vs"
  from makeNodeVectors_success[OF ok]
  have nn: "\<forall>l\<in>set (capLengths bound lengths). 0 \<le> l"
    and vs: "vs = map (\<lambda>l. replicate (nat l) repeatNode) (capLengths bound lengths)"
    by simp_all
  show "length vs = length lengths" by (simp add: vs capLengths_def)
  show "\<forall>i<length lengths.
         (bound < lengths ! i \<longrightarrow> vs ! i = replicate (nat bound) repeatNode \<and> int (length (vs ! i)) = bound) \<and>
         (lengths ! i \<le> bound \<longrightarrow>
            vs ! i = replicate (nat (lengths ! i)) repeatNode \<and> int (length (vs ! i)) = lengths ! i)"
  proof (intro allI impI)
    fix i assume i: "i < length lengths"
    then have "capLengths bound lengths ! i \<in> set (capLengths bound lengths)"
      by (intro nth_mem) (simp add: capLengths_def)
    then have "0 \<le> capLengths bound lengths ! i"
      using nn by blast
    moreover have "capLengths bound lengths ! i = (if lengths ! i \<le> bound then lengths ! i else bound)"
      using i by (simp add: capLengths_def)
    ultimately have c: "0 \<le> (if lengths ! i \<le> bound then lengths ! i else bound)"
      by simp
    have v: "vs ! i = replicate (nat (if lengths ! i \<le> bound then lengths ! i else bound)) repeatNode"
      using i by (simp add: vs capLengths_def)
    show "(bound < lengths ! i \<longrightarrow> vs ! i = replicate (nat bound) repeatNode \<and> int (length (vs ! i)) = bound) \<and>
         (lengths ! i \<le> bound \<longrightarrow>
            vs ! i = replicate (nat (lengths ! i)) repeatNode \<and> int (length (vs ! i)) = lengths ! i)"
    proof (cases "lengths ! i \<le> bound")
      case True
      with c v show ?thesis by simp
    next
      case False
      with c v show ?thesis by simp
    qed
  qed
next
  assume "0 \<le> bound \<and> (\<forall>l\<in>set lengths. 0 \<le> l)"
  then have "\<forall>l\<in>set (capLengths bound lengths). 0 \<le> l"
    by (auto simp: capLengths_def)
  then show "\<exists>vs. makeNodeVectors (capLengths bound lengths) repeatNode = Inr vs"
    by (simp add: makeNodeVectors_nonneg)
qed

subsection \<open>Reading the call record\<close>

lemma stoi_errors: "stoi s = Inl e \<Longrightarrow> e = InvalidArgument \<or> e = OutOfRange"
  by (auto simp: stoi_def Let_def split: if_splits)

lemma stoiAll_errors: "stoiAll ps = Inl e \<Longrightarrow> e = InvalidArgument \<or> e = OutOfRange"
  by (induction ps arbitrary: e) (auto split: sum.splits dest: stoi_errors)

lemma stoiAll_length: "stoiAll ps = Inr vs \<Longrightarrow> length vs = length ps"
  by (induction ps arbitrary: vs) (auto split: sum.splits)

lemma stoiAll_values: "stoiAll ps = Inr vs \<Longrightarrow> map stoi ps = map Inr vs"
  by (induction ps arbitrary: vs) (auto split: sum.splits)

lemma length_split: "length (split d s) = Suc (count_list s d)"
  by (induction s) (auto split: list.splits)

lemma digitValue_nonneg: "isdigit c \<Longrightarrow> 0 \<le> digitValue c"
  by (auto simp: isdigit_def digitValue_def)

lemma decimalValue_nonneg: "0 \<le> acc \<Longrightarrow> list_all isdigit ds \<Longrightarrow> 0 \<le> decimalValue acc ds"
  by (induction ds arbitrary: acc) (auto simp: digitValue_nonneg)

lemma isdigit_not_space: "isdigit c \<Longrightarrow> \<not> isspace c \<and> c \<noteq> CHR ''-'' \<and> c \<noteq> CHR ''+''"
  by (auto simp: isdigit_def isspace_def)

lemma stoi_number:
  assumes "isNumber s"
  shows "stoi s = (if 2147483647 < decimalValue 0 s then Inl OutOfRange else Inr (decimalValue 0 s))"
proof -
  from assms obtain c cs where s: "s = c # cs" and c: "isdigit c" and cs: "list_all isdigit cs"
    by (cases s) (auto simp: isNumber_def)
  have tw: "takeWhile isdigit cs = cs"
    using cs by (simp add: list_all_iff)
  have "0 \<le> decimalValue 0 s"
    using assms by (intro decimalValue_nonneg) (simp_all add: isNumber_def)
  then show ?thesis
    using isdigit_not_space[OF c] c unfolding s stoi_def
    by (simp add: Let_def tw)
qed

lemma stoi_number_nonneg: "isNumber s \<Longrightarrow> stoi s = Inr v \<Longrightarrow> 0 \<le> v \<and> v = decimalValue 0 s"
  using decimalValue_nonneg[of 0 s]
  by (auto simp: stoi_number isNumber_def split: if_splits)

lemma stoiAll_nonneg:
  "stoiAll ps = Inr vs \<Longrightarrow> \<forall>p\<in>set ps. isNumber p \<Longrightarrow> (\<forall>v\<in>set vs. 0 \<le> v) \<and> vs = map (decimalValue 0) ps"
  by (induction ps arbitrary: vs) (auto split: sum.splits dest: stoi_number_nonneg)

lemma extractRepeatLengths_cases:
  "extractRepeatLengths fs vcfPath repeatId =
     (case fs vcfPath of
        None \<Rightarrow> Inl IOError
      | Some lines \<Rightarrow>
          (case matchingRecord fs vcfPath repeatId of
             None \<Rightarrow> Inl NotFound
           | Some line \<Rightarrow>
               if length (sampleFieldsOf line) \<le> 2 then Inl UndefinedRead
               else if sampleFieldsOf line ! 2 = ''./.'' then Inl MissingGenotype
               else stoiAll (split (CHR ''/'') (sampleFieldsOf line ! 2))))"
  by (simp add: extractRepeatLengths_def matchingRecord_def sampleFieldsOf_def Let_def
      split: option.splits)

lemma example_lengths: "extractRepeatLengths exampleFs ''sample.vcf'' ''HTT'' = Inr [3, 4]"
  by code_simp

lemma example_matching: "matchingRecord exampleFs ''sample.vcf'' ''HTT'' = Some exampleRecord"
  by code_simp

lemma example_fields: "sampleFieldsOf exampleRecord = [''1/2'', ''SPANNING/SPANNING'', ''3/4'', ''3-3/4-4'']"
  by code_simp

lemma noCall_matching:
  "matchingRecord noCallFs ''sample.vcf'' ''HTT'' =
     Some (''chr4'' @ [CHR 0x09] @ ''VARID=HTT;RU=CAG'' @ [CHR 0x09] @ ''GT:SO:REPCN'' @ [CHR 0x09] @ ''./.:./.:./.'')"
  by code_simp

lemma noCall_fields:
  "sampleFieldsOf (''chr4'' @ [CHR 0x09] @ ''VARID=HTT;RU=CAG'' @ [CHR 0x09] @ ''GT:SO:REPCN'' @ [CHR 0x09] @ ''./.:./.:./.'')
     = [''./.'', ''./.'', ''./.'']"
  by code_simp

lemma example_no_record: "matchingRecord exampleFs ''sample.vcf'' ''FMR1'' = None"
  by code_simp

lemma split_nonempty: "split d s \<noteq> []"
  by (induction s) (auto split: list.splits)

lemma split_no_delimiter: "d \<notin> set a \<Longrightarrow> split d a = [a]"
  by (induction a) auto

lemma split_at_delimiter: "d \<notin> set a \<Longrightarrow> split d (a @ d # b) = a # split d b"
  by (induction a) auto

lemma split_one_piece: "split d s = [a] \<Longrightarrow> s = a \<and> d \<notin> set a"
proof (induction s arbitrary: a)
  case Nil
  then show ?case by simp
next
  case (Cons c cs)
  show ?case
  proof (cases "c = d")
    case True
    with Cons.prems split_nonempty[of d cs] show ?thesis by simp
  next
    case False
    with Cons.prems split_nonempty[of d cs] obtain p where p: "split d cs = [p]" and a: "a = c # p"
      by (auto split: list.splits)
    from Cons.IH[OF p] a False show ?thesis by simp
  qed
qed

lemma split_two_pieces: "split d s = [a, b] \<Longrightarrow> s = a @ d # b \<and> d \<notin> set a \<and> d \<notin> set b"
proof (induction s arbitrary: a)
  case Nil
  then show ?case by simp
next
  case (Cons c cs)
  show ?case
  proof (cases "c = d")
    case True
    with Cons.prems have "a = []" and "split d cs = [b]" by simp_all
    with split_one_piece[of d cs b] True show ?thesis by simp
  next
    case False
    with Cons.prems split_nonempty[of d cs] obtain p where p: "split d cs = [p, b]" and a: "a = c # p"
      by (auto split: list.splits)
    from Cons.IH[OF p] a False show ?thesis by simp
  qed
qed

lemma isNumber_no_slash: "isNumber a \<Longrightarrow> CHR ''/'' \<notin> set a"
  by (auto simp: isNumber_def list_all_iff isdigit_def)

text \<open>The executable form of the grammar is the grammar \<^verbatim>\<open>a\<close>, \<^verbatim>\<open>a/b\<close> or \<^verbatim>\<open>./.\<close>.\<close>

lemma genotypeEncodingWellFormed_iff:
  "genotypeEncodingWellFormed encoding \<longleftrightarrow>
     encoding = ''./.'' \<or> isNumber encoding \<or>
     (\<exists>a b. isNumber a \<and> isNumber b \<and> encoding = a @ ''/'' @ b)"
proof
  assume "genotypeEncodingWellFormed encoding"
  then consider "encoding = ''./.''"
    | a where "split (CHR ''/'') encoding = [a]" "isNumber a"
    | a b where "split (CHR ''/'') encoding = [a, b]" "isNumber a" "isNumber b"
    unfolding genotypeEncodingWellFormed_def Let_def
    by (cases "split (CHR ''/'') encoding"; cases "tl (split (CHR ''/'') encoding)") auto
  then show "encoding = ''./.'' \<or> isNumber encoding \<or>
     (\<exists>a b. isNumber a \<and> isNumber b \<and> encoding = a @ ''/'' @ b)"
  proof cases
    case 1
    then show ?thesis by simp
  next
    case 2
    with split_one_piece[of "CHR ''/''" encoding a] show ?thesis by simp
  next
    case 3
    with split_two_pieces[of "CHR ''/''" encoding a b] show ?thesis by auto
  qed
next
  assume "encoding = ''./.'' \<or> isNumber encoding \<or>
     (\<exists>a b. isNumber a \<and> isNumber b \<and> encoding = a @ ''/'' @ b)"
  then consider "encoding = ''./.''" | "isNumber encoding"
    | a b where "isNumber a" "isNumber b" "encoding = a @ ''/'' @ b"
    by blast
  then show "genotypeEncodingWellFormed encoding"
  proof cases
    case 1
    then show ?thesis by (simp add: genotypeEncodingWellFormed_def)
  next
    case 2
    with split_no_delimiter[OF isNumber_no_slash[OF 2]] show ?thesis
      by (simp add: genotypeEncodingWellFormed_def)
  next
    case 3
    with split_at_delimiter[OF isNumber_no_slash[OF 3(1)], of b]
      split_no_delimiter[OF isNumber_no_slash[OF 3(2)]]
    show ?thesis by (simp add: genotypeEncodingWellFormed_def)
  qed
qed

lemma find_first_iff: "find_first line query \<longleftrightarrow> (\<exists>before after. line = before @ query @ after)"
proof (induction line)
  case Nil
  then show ?case by auto
next
  case (Cons c cs)
  show ?case
  proof
    assume "find_first (c # cs) query"
    then consider "prefix query (c # cs)" | "find_first cs query" by auto
    then show "\<exists>before after. c # cs = before @ query @ after"
    proof cases
      case 1
      then obtain after where "c # cs = query @ after" by (auto simp: prefix_def)
      then have "c # cs = [] @ query @ after" by simp
      then show ?thesis by blast
    next
      case 2
      with Cons.IH obtain before after where "cs = before @ query @ after" by blast
      then have "c # cs = (c # before) @ query @ after" by simp
      then show ?thesis by blast
    qed
  next
    assume "\<exists>before after. c # cs = before @ query @ after"
    then obtain before after where e: "c # cs = before @ query @ after" by blast
    show "find_first (c # cs) query"
    proof (cases before)
      case Nil
      with e have "prefix query (c # cs)" by (simp add: prefix_def)
      then show ?thesis by simp
    next
      case (Cons b bs)
      with e have "cs = bs @ query @ after" by simp
      with Cons.IH show ?thesis by auto
    qed
  qed
qed

lemma find_first_longer: "find_first line (query @ rest) \<Longrightarrow> find_first line query"
  unfolding find_first_iff by (metis append.assoc)

text \<open>
  C7. The extraction fails with \<open>MissingGenotype\<close> exactly when the genotype field (the
  third colon-delimited field of the last tab-separated column) of the matching record is
  the no-call \<^verbatim>\<open>./.\<close>, with \<open>NotFound\<close> when the file opens and no line names the variant
  identifier, and with \<open>IOError\<close> when the file cannot be opened. On success the integers
  returned are those \<^verbatim>\<open>stoi\<close> reads from the slash-separated pieces of the genotype field;
  for a genotype field of the call source's form \<^verbatim>\<open>a\<close> or \<^verbatim>\<open>a/b\<close> they are one or two
  integers, none of them negative, with the values of \<^verbatim>\<open>a\<close> and \<^verbatim>\<open>b\<close>.
\<close>

theorem extractRepeatLengths_outcomes:
  "(extractRepeatLengths fs vcfPath repeatId = Inl IOError \<longleftrightarrow> fs vcfPath = None) \<and>
   (extractRepeatLengths fs vcfPath repeatId = Inl NotFound \<longleftrightarrow>
      fs vcfPath \<noteq> None \<and> matchingRecord fs vcfPath repeatId = None) \<and>
   ((\<exists>lines. fs vcfPath = Some lines \<and>
        (\<forall>line\<in>set lines. \<not> find_first line (''VARID='' @ repeatId))) \<longrightarrow>
      extractRepeatLengths fs vcfPath repeatId = Inl NotFound) \<and>
   (extractRepeatLengths fs vcfPath repeatId = Inl MissingGenotype \<longleftrightarrow>
      (\<exists>line. matchingRecord fs vcfPath repeatId = Some line \<and>
              2 < length (sampleFieldsOf line) \<and> sampleFieldsOf line ! 2 = ''./.'')) \<and>
   (\<forall>sizes. extractRepeatLengths fs vcfPath repeatId = Inr sizes \<longrightarrow>
      (\<exists>line. matchingRecord fs vcfPath repeatId = Some line \<and> 2 < length (sampleFieldsOf line) \<and>
         map stoi (split (CHR ''/'') (sampleFieldsOf line ! 2)) = map Inr sizes \<and>
         length sizes = Suc (count_list (sampleFieldsOf line ! 2) (CHR ''/'')) \<and>
         (genotypeEncodingWellFormed (sampleFieldsOf line ! 2) \<longrightarrow>
            (length sizes = 1 \<or> length sizes = 2) \<and>
            (\<forall>v\<in>set sizes. 0 \<le> v) \<and>
            sizes = map (decimalValue 0) (split (CHR ''/'') (sampleFieldsOf line ! 2)))))"
proof (intro conjI allI impI)
  show "extractRepeatLengths fs vcfPath repeatId = Inl IOError \<longleftrightarrow> fs vcfPath = None"
    by (auto simp: extractRepeatLengths_cases split: option.splits dest: stoiAll_errors)
  show nf: "extractRepeatLengths fs vcfPath repeatId = Inl NotFound \<longleftrightarrow>
      fs vcfPath \<noteq> None \<and> matchingRecord fs vcfPath repeatId = None"
    by (auto simp: extractRepeatLengths_cases split: option.splits dest: stoiAll_errors)
  show "extractRepeatLengths fs vcfPath repeatId = Inl MissingGenotype \<longleftrightarrow>
      (\<exists>line. matchingRecord fs vcfPath repeatId = Some line \<and>
              2 < length (sampleFieldsOf line) \<and> sampleFieldsOf line ! 2 = ''./.'')"
    by (auto simp: extractRepeatLengths_cases matchingRecord_def split: option.splits dest: stoiAll_errors)
  {
    assume "\<exists>lines. fs vcfPath = Some lines \<and>
        (\<forall>line\<in>set lines. \<not> find_first line (''VARID='' @ repeatId))"
    then obtain lines where l: "fs vcfPath = Some lines"
      and n: "\<forall>line\<in>set lines. \<not> find_first line (''VARID='' @ repeatId)"
      by blast
    have "\<forall>line\<in>set lines. \<not> find_first line (''VARID='' @ repeatId @ '';'')"
    proof
      fix line assume "line \<in> set lines"
      with n have "\<not> find_first line (''VARID='' @ repeatId)" by blast
      then show "\<not> find_first line (''VARID='' @ repeatId @ '';'')"
        using find_first_longer[of line "''VARID='' @ repeatId" "'';''"] by auto
    qed
    then have "matchingRecord fs vcfPath repeatId = None"
      by (simp add: matchingRecord_def l find_None_iff)
    with l nf show "extractRepeatLengths fs vcfPath repeatId = Inl NotFound" by simp
  }
next
  fix sizes
  assume ok: "extractRepeatLengths fs vcfPath repeatId = Inr sizes"
  then obtain line where
    line: "matchingRecord fs vcfPath repeatId = Some line" and len: "2 < length (sampleFieldsOf line)"
    and ne: "sampleFieldsOf line ! 2 \<noteq> ''./.''"
    and all: "stoiAll (split (CHR ''/'') (sampleFieldsOf line ! 2)) = Inr sizes"
    by (auto simp: extractRepeatLengths_cases split: option.splits if_splits)
  have l: "length sizes = Suc (count_list (sampleFieldsOf line ! 2) (CHR ''/''))"
    using stoiAll_length[OF all] by (simp add: length_split)
  have v: "map stoi (split (CHR ''/'') (sampleFieldsOf line ! 2)) = map Inr sizes"
    by (rule stoiAll_values[OF all])
  have g: "genotypeEncodingWellFormed (sampleFieldsOf line ! 2) \<longrightarrow>
            (length sizes = 1 \<or> length sizes = 2) \<and>
            (\<forall>v\<in>set sizes. 0 \<le> v) \<and>
            sizes = map (decimalValue 0) (split (CHR ''/'') (sampleFieldsOf line ! 2))"
  proof
    assume "genotypeEncodingWellFormed (sampleFieldsOf line ! 2)"
    with ne have p: "length (split (CHR ''/'') (sampleFieldsOf line ! 2)) = 1 \<or>
                     length (split (CHR ''/'') (sampleFieldsOf line ! 2)) = 2"
      and n: "\<forall>piece\<in>set (split (CHR ''/'') (sampleFieldsOf line ! 2)). isNumber piece"
      by (simp_all add: genotypeEncodingWellFormed_def Let_def list_all_iff)
    from p stoiAll_length[OF all] have "length sizes = 1 \<or> length sizes = 2" by simp
    with stoiAll_nonneg[OF all n]
    show "(length sizes = 1 \<or> length sizes = 2) \<and>
            (\<forall>v\<in>set sizes. 0 \<le> v) \<and>
            sizes = map (decimalValue 0) (split (CHR ''/'') (sampleFieldsOf line ! 2))"
      by blast
  qed
  from line len l v g
  show "\<exists>line. matchingRecord fs vcfPath repeatId = Some line \<and> 2 < length (sampleFieldsOf line) \<and>
         map stoi (split (CHR ''/'') (sampleFieldsOf line ! 2)) = map Inr sizes \<and>
         length sizes = Suc (count_list (sampleFieldsOf line ! 2) (CHR ''/'')) \<and>
         (genotypeEncodingWellFormed (sampleFieldsOf line ! 2) \<longrightarrow>
            (length sizes = 1 \<or> length sizes = 2) \<and>
            (\<forall>v\<in>set sizes. 0 \<le> v) \<and>
            sizes = map (decimalValue 0) (split (CHR ''/'') (sampleFieldsOf line ! 2)))"
    by blast
qed

theorem extractRepeatLengths_outcomes_witness:
  "extractRepeatLengths exampleFs ''absent.vcf'' ''HTT'' = Inl IOError \<and>
   extractRepeatLengths exampleFs ''sample.vcf'' ''FMR1'' = Inl NotFound \<and>
   extractRepeatLengths noCallFs ''sample.vcf'' ''HTT'' = Inl MissingGenotype \<and>
   extractRepeatLengths exampleFs ''sample.vcf'' ''HTT'' = Inr [3, 4] \<and>
   matchingRecord exampleFs ''sample.vcf'' ''HTT'' = Some exampleRecord \<and>
   sampleFieldsOf exampleRecord ! 2 = ''3/4'' \<and>
   genotypeEncodingWellFormed ''3/4'' \<and>
   [3, 4] = map (decimalValue 0) (split (CHR ''/'') ''3/4'')"
proof -
  have "extractRepeatLengths exampleFs ''absent.vcf'' ''HTT'' = Inl IOError"
    using extractRepeatLengths_outcomes [of exampleFs "''absent.vcf''" "''HTT''"]
    by (simp add: exampleFs_def)
  moreover have "extractRepeatLengths exampleFs ''sample.vcf'' ''FMR1'' = Inl NotFound"
    using extractRepeatLengths_outcomes [of exampleFs "''sample.vcf''" "''FMR1''"] example_no_record
    by (simp add: exampleFs_def)
  moreover have "extractRepeatLengths noCallFs ''sample.vcf'' ''HTT'' = Inl MissingGenotype"
    using extractRepeatLengths_outcomes [of noCallFs "''sample.vcf''" "''HTT''"] noCall_matching noCall_fields
    by simp
  moreover have wf: "genotypeEncodingWellFormed ''3/4''"
    by (simp add: genotypeEncodingWellFormed_def isNumber_def isdigit_def)
  moreover have "[3, 4] = map (decimalValue 0) (split (CHR ''/'') ''3/4'')"
  proof -
    from extractRepeatLengths_outcomes [of exampleFs "''sample.vcf''" "''HTT''",
        THEN conjunct2, THEN conjunct2, THEN conjunct2, THEN conjunct2, THEN spec, THEN mp,
        OF example_lengths]
    obtain line where l: "matchingRecord exampleFs ''sample.vcf'' ''HTT'' = Some line"
      and n: "genotypeEncodingWellFormed (sampleFieldsOf line ! 2) \<longrightarrow>
            (length [3, 4 :: int] = 1 \<or> length [3, 4 :: int] = 2) \<and>
            (\<forall>v\<in>set [3, 4]. (0::int) \<le> v) \<and>
            [3, 4] = map (decimalValue 0) (split (CHR ''/'') (sampleFieldsOf line ! 2))"
      by (elim exE conjE)
    from l example_matching have "line = exampleRecord" by simp
    with n wf show ?thesis
      by (simp add: example_fields)
  qed
  ultimately show ?thesis
    using example_lengths example_matching example_fields by simp
qed

subsection \<open>Small variants\<close>

lemma variantGenotypeNodes_small:
  "classificationType v = kSmallVariant \<Longrightarrow>
   variantGenotypeNodes meanFragLen fs vcfPath v = Inl UnsupportedVariantType"
  by (simp add: variantGenotypeNodes_def)

lemma genotypeNodesLoop_first_failure:
  "\<forall>u\<in>set pre. \<exists>r. variantGenotypeNodes meanFragLen fs vcfPath u = Inr r \<Longrightarrow>
   variantGenotypeNodes meanFragLen fs vcfPath w = Inl e \<Longrightarrow>
   genotypeNodesLoop meanFragLen fs vcfPath (pre @ w # post) m = Inl e"
  by (induction pre arbitrary: m) auto

lemma genotypeNodesLoop_small:
  "v \<in> set vs \<Longrightarrow> classificationType v = kSmallVariant \<Longrightarrow>
   \<exists>e. genotypeNodesLoop meanFragLen fs vcfPath vs m = Inl e"
proof (induction vs arbitrary: m)
  case Nil
  then show ?case by simp
next
  case (Cons u us)
  show ?case
  proof (cases "variantGenotypeNodes meanFragLen fs vcfPath u")
    case (Inl e)
    then show ?thesis by simp
  next
    case (Inr r)
    with Cons.prems have "v \<in> set us"
      by (auto simp: variantGenotypeNodes_small)
    from Cons.IH[OF this Cons.prems(2)] Inr show ?thesis
      by (cases r) simp
  qed
qed

lemma getCandidateDiplotypes_propagates:
  "getGenotypeNodesByNodeRange meanFragLen fs vcfPath locusSpec = Inl e \<Longrightarrow>
   getCandidateDiplotypes meanFragLen fs vcfPath locusSpec = Some (Inl e)"
  by (simp add: getCandidateDiplotypes_def)

lemma example_variant:
  "variantGenotypeNodes 500 exampleFs ''sample.vcf''
     \<lparr>variantId = ''HTT'', classificationType = kRepeat, variantNodes = [1]\<rparr> =
   Inr ((1, 1), [[1, 1, 1], [1, 1, 1, 1]])"
  by (simp add: variantGenotypeNodes_def example_lengths capLengths_def nodeIdMax_def nodeIdLowest_def
      replicate_numeral)

lemma absent_variant:
  "variantGenotypeNodes 500 exampleFs ''absent.vcf''
     \<lparr>variantId = ''HTT'', classificationType = kRepeat, variantNodes = [1]\<rparr> = Inl IOError"
  by (simp add: variantGenotypeNodes_def extractRepeatLengths_def exampleFs_def)

text \<open>
  C8, as the code has it. The extraction fails whenever a variant of the locus is a small
  variant. The error is \<open>UnsupportedVariantType\<close> when every variant before the small one is
  extracted without error; otherwise it is the error of the first variant that fails. The
  error reaches the caller of \<open>getCandidateDiplotypes\<close> unchanged, with no diplotypes.
\<close>

theorem small_variant_rejected:
  "((\<exists>v\<in>set (variantSpecs locusSpec). classificationType v = kSmallVariant) \<longrightarrow>
      (\<exists>e. getGenotypeNodesByNodeRange meanFragLen fs vcfPath locusSpec = Inl e)) \<and>
   (variantSpecs locusSpec = pre @ v # post \<and>
    (\<forall>u\<in>set pre. \<exists>r. variantGenotypeNodes meanFragLen fs vcfPath u = Inr r) \<and>
    classificationType v = kSmallVariant \<longrightarrow>
      getGenotypeNodesByNodeRange meanFragLen fs vcfPath locusSpec = Inl UnsupportedVariantType) \<and>
   (variantSpecs locusSpec = pre @ v # post \<and>
    (\<forall>u\<in>set pre. \<exists>r. variantGenotypeNodes meanFragLen fs vcfPath u = Inr r) \<and>
    variantGenotypeNodes meanFragLen fs vcfPath v = Inl e \<longrightarrow>
      getGenotypeNodesByNodeRange meanFragLen fs vcfPath locusSpec = Inl e) \<and>
   (getGenotypeNodesByNodeRange meanFragLen fs vcfPath locusSpec = Inl e \<longrightarrow>
      getCandidateDiplotypes meanFragLen fs vcfPath locusSpec = Some (Inl e))"
proof (intro conjI impI)
  assume "\<exists>v\<in>set (variantSpecs locusSpec). classificationType v = kSmallVariant"
  then show "\<exists>e. getGenotypeNodesByNodeRange meanFragLen fs vcfPath locusSpec = Inl e"
    unfolding getGenotypeNodesByNodeRange_def by (blast intro: genotypeNodesLoop_small)
next
  assume "variantSpecs locusSpec = pre @ v # post \<and>
    (\<forall>u\<in>set pre. \<exists>r. variantGenotypeNodes meanFragLen fs vcfPath u = Inr r) \<and>
    classificationType v = kSmallVariant"
  then show "getGenotypeNodesByNodeRange meanFragLen fs vcfPath locusSpec = Inl UnsupportedVariantType"
    unfolding getGenotypeNodesByNodeRange_def
    by (simp add: genotypeNodesLoop_first_failure variantGenotypeNodes_small)
next
  assume "variantSpecs locusSpec = pre @ v # post \<and>
    (\<forall>u\<in>set pre. \<exists>r. variantGenotypeNodes meanFragLen fs vcfPath u = Inr r) \<and>
    variantGenotypeNodes meanFragLen fs vcfPath v = Inl e"
  then show "getGenotypeNodesByNodeRange meanFragLen fs vcfPath locusSpec = Inl e"
    unfolding getGenotypeNodesByNodeRange_def
    by (simp add: genotypeNodesLoop_first_failure)
next
  assume "getGenotypeNodesByNodeRange meanFragLen fs vcfPath locusSpec = Inl e"
  then show "getCandidateDiplotypes meanFragLen fs vcfPath locusSpec = Some (Inl e)"
    by (rule getCandidateDiplotypes_propagates)
qed

theorem small_variant_rejected_witness:
  "getGenotypeNodesByNodeRange 500 exampleFs ''sample.vcf'' mixedLocus = Inl UnsupportedVariantType \<and>
   getCandidateDiplotypes 500 exampleFs ''sample.vcf'' mixedLocus = Some (Inl UnsupportedVariantType)"
proof -
  have pre: "variantSpecs mixedLocus =
      [\<lparr>variantId = ''HTT'', classificationType = kRepeat, variantNodes = [1]\<rparr>] @
      \<lparr>variantId = ''SNV'', classificationType = kSmallVariant, variantNodes = [2]\<rparr> # [] \<and>
    (\<forall>u\<in>set [\<lparr>variantId = ''HTT'', classificationType = kRepeat, variantNodes = [1]\<rparr>].
       \<exists>r. variantGenotypeNodes 500 exampleFs ''sample.vcf'' u = Inr r) \<and>
    classificationType \<lparr>variantId = ''SNV'', classificationType = kSmallVariant, variantNodes = [2]\<rparr> =
      kSmallVariant"
    using example_variant by (simp add: mixedLocus_def del: One_nat_def)
  note inst = small_variant_rejected [of mixedLocus 500 exampleFs "''sample.vcf''"
      "[\<lparr>variantId = ''HTT'', classificationType = kRepeat, variantNodes = [1]\<rparr>]"
      "\<lparr>variantId = ''SNV'', classificationType = kSmallVariant, variantNodes = [2]\<rparr>" "[]"
      UnsupportedVariantType]
  from inst pre have a: "getGenotypeNodesByNodeRange 500 exampleFs ''sample.vcf'' mixedLocus = Inl UnsupportedVariantType"
    by blast
  with inst have "getCandidateDiplotypes 500 exampleFs ''sample.vcf'' mixedLocus = Some (Inl UnsupportedVariantType)"
    by blast
  with a show ?thesis by simp
qed

text \<open>
  C8 as stated does not hold: with a call file that cannot be opened, the repeat before
  the small variant fails first and the error is \<open>IOError\<close>.
\<close>

theorem small_variant_behind_unreadable_calls:
  "classificationType (variantSpecs mixedLocus ! 1) = kSmallVariant \<and>
   getGenotypeNodesByNodeRange 500 exampleFs ''absent.vcf'' mixedLocus = Inl IOError \<and>
   getCandidateDiplotypes 500 exampleFs ''absent.vcf'' mixedLocus = Some (Inl IOError)"
proof -
  have "getGenotypeNodesByNodeRange 500 exampleFs ''absent.vcf'' mixedLocus = Inl IOError"
    by (simp add: mixedLocus_def getGenotypeNodesByNodeRange_def absent_variant del: One_nat_def)
  then show ?thesis
    by (simp add: getCandidateDiplotypes_propagates) (simp add: mixedLocus_def)
qed

subsection \<open>Order of the haplotypes and of the diplotypes\<close>

lemma pathLess_irrefl: "\<not> pathLess p p"
  by (simp add: pathLess_def)

lemma pathLess_asym: "pathLess p q \<Longrightarrow> \<not> pathLess q p"
  by (simp add: pathLess_def)

lemma hd_swapHaplotypes: assumes "d \<noteq> []" shows "hd (swapHaplotypes d) = (if length d = 1 then hd d else last d)"
proof (cases d)
  case Nil
  then show ?thesis using \<open>d \<noteq> []\<close> by simp
next
  case (Cons x xs)
  then show ?thesis by (cases xs) (simp_all add: swapHaplotypes_def)
qed

lemma last_swapHaplotypes: "d \<noteq> [] \<Longrightarrow> last (swapHaplotypes d) = hd d"
  by (simp add: swapHaplotypes_def last_conv_nth)

lemma set_swapHaplotypes: "set (swapHaplotypes d) \<subseteq> set d"
proof (cases "d = []")
  case True
  then show ?thesis by (simp add: swapHaplotypes_def)
next
  case False
  then have "hd d \<in> set d" "last d \<in> set d" by simp_all
  then show ?thesis
    unfolding swapHaplotypes_def
    by (intro set_update_subsetI) simp_all
qed

lemma swapHaplotypes_two: "swapHaplotypes [p, q] = [q, p]"
  by (simp add: swapHaplotypes_def)

lemma swapHaplotypes_one: "swapHaplotypes [p] = [p]"
  by (simp add: swapHaplotypes_def)

lemma makeDiplotype_props:
  assumes "makeDiplotype g r nodes = Inr d"
  shows "d \<noteq> []" and "\<not> pathLess (hd d) (last d)" and "\<forall>p\<in>set d. pathOn g r p"
    and "length d = length nodes"
proof -
  define d0 where "d0 = map (\<lambda>h. \<lparr>graphRawPtr = g, startPosition = 0, nodeIds = h, endPosition = r\<rparr>) nodes"
  have ne: "d0 \<noteq> []" using assms by (auto simp: makeDiplotype_def d0_def Let_def split: if_splits)
  have d: "d = (if pathLess (hd d0) (last d0) then swapHaplotypes d0 else d0)"
    using assms ne by (auto simp: makeDiplotype_def d0_def Let_def split: if_splits)
  have on0: "\<forall>p\<in>set d0. pathOn g r p" by (auto simp: d0_def pathOn_def)
  show "d \<noteq> []" using ne d by (auto simp: swapHaplotypes_def)
  show "\<not> pathLess (hd d) (last d)"
    using ne d by (auto simp: hd_swapHaplotypes last_swapHaplotypes pathLess_irrefl dest: pathLess_asym)
  show "\<forall>p\<in>set d. pathOn g r p"
    using on0 d set_swapHaplotypes[of d0] by (auto split: if_splits)
  show "length d = length nodes" using d by (auto simp: swapHaplotypes_def d0_def)
qed

lemma makeDiplotypes_members:
  "makeDiplotypes g r nbd = Inr ds \<Longrightarrow> d \<in> set ds \<Longrightarrow> \<exists>nodes\<in>set nbd. makeDiplotype g r nodes = Inr d"
  by (induction nbd arbitrary: ds) (auto split: sum.splits)

lemma getCandidateDiplotypes_output:
  assumes "getCandidateDiplotypes meanFragLen fs vcfPath locusSpec = Some (Inr ds)"
  shows "\<exists>nbd unsorted r. makeDiplotypes (regionGraph locusSpec) r nbd = Inr unsorted \<and> ds = sortUnique unsorted"
  using assms
  by (auto simp: getCandidateDiplotypes_def Let_def split: sum.splits list.splits option.splits)

lemma set_sortUnique: "set (sortUnique ds) = set ds"
  by (simp add: sortUnique_def)

lemma pathOn_eq: "pathOn g r p \<Longrightarrow> pathOn g r q \<Longrightarrow> pathKey p = pathKey q \<Longrightarrow> p = q"
  by (cases p; cases q) (simp add: pathOn_def pathKey_def)


lemma swapHaplotypes_id: "hd d = last d \<Longrightarrow> swapHaplotypes d = d"
proof (cases "d = []")
  case True
  then show ?thesis by (simp add: swapHaplotypes_def)
next
  case False
  assume eq: "hd d = last d"
  have "d[0 := last d] = d"
    using False eq [symmetric] by (simp add: hd_conv_nth)
  moreover have "d[length d - 1 := hd d] = d"
    using False eq by (simp add: last_conv_nth)
  ultimately show ?thesis
    by (simp add: swapHaplotypes_def)
qed

lemma output_members:
  assumes "getCandidateDiplotypes meanFragLen fs vcfPath locusSpec = Some (Inr ds)" and "d \<in> set ds"
  shows "\<exists>r. d \<noteq> [] \<and> \<not> pathLess (hd d) (last d) \<and> (\<forall>p\<in>set d. pathOn (regionGraph locusSpec) r p)"
proof -
  from getCandidateDiplotypes_output[OF assms(1)] obtain nbd unsorted r where
    m: "makeDiplotypes (regionGraph locusSpec) r nbd = Inr unsorted" and ds: "ds = sortUnique unsorted"
    by blast
  from assms(2) ds have "d \<in> set unsorted" by (simp add: set_sortUnique)
  from makeDiplotypes_members[OF m this] obtain nodes where
    "makeDiplotype (regionGraph locusSpec) r nodes = Inr d" by blast
  from makeDiplotype_props(1-3)[OF this] show ?thesis by blast
qed

lemma diplotype_key_inj:
  assumes "\<forall>p\<in>set d. pathOn g r p" and "\<forall>p\<in>set e. pathOn g r p"
    and "map pathKey d = map pathKey e"
  shows "d = e"
  using assms(3)
proof (rule list.inj_map_strong[rotated])
  fix z za
  assume "z \<in> set d" "za \<in> set e" "pathKey z = pathKey za"
  with assms(1,2) show "z = za" by (blast intro: pathOn_eq)
qed

lemma diplotypeLess_fun: "diplotypeLess = (\<lambda>d e. map pathKey d < map pathKey e)"
  by (intro ext) (simp add: diplotypeLess_def)

lemma remdups_adj_strict:
  "sorted (map K xs) \<Longrightarrow> inj_on K (set xs) \<Longrightarrow> sorted_wrt (\<lambda>a b. K a < K b) (remdups_adj xs)"
proof (induction xs rule: remdups_adj.induct)
  case 1
  then show ?case by simp
next
  case (2 x)
  then show ?case by simp
next
  case (3 x y xs)
  show ?case
  proof (cases "x = y")
    case True
    with 3 show ?thesis by simp
  next
    case False
    from 3(3) have le: "\<forall>z\<in>set (y # xs). K x \<le> K z" by simp
    from 3(4) False have "K x \<noteq> K y" by (auto simp: inj_on_def)
    with le have "K x < K y" by (simp add: less_le)
    moreover from 3(3) have "\<forall>z\<in>set (y # xs). K y \<le> K z" by auto
    ultimately have "\<forall>z\<in>set (y # xs). K x < K z" by (auto intro: less_le_trans)
    moreover from 3(2)[OF False] 3(3,4) have "sorted_wrt (\<lambda>a b. K a < K b) (remdups_adj (y # xs))"
      by (simp add: inj_on_def)
    ultimately show ?thesis using False by simp
  qed
qed

subsection \<open>The walk returns\<close>

lemma getVariantGenotypeNodes_range:
  "getVariantGenotypeNodes m node = Inr (Some (paths, lastNode)) \<Longrightarrow>
   \<exists>nodeRange\<in>fst ` set m. snd nodeRange = lastNode \<and> node \<le> lastNode"
  by (induction m) (auto split: if_splits)

lemma walkStep_advances:
  assumes "walkStep m node ds = Inr (node', ds')"
    and "node < n" and "n \<le> nodeIdMax" and "\<forall>nodeRange\<in>fst ` set m. snd nodeRange < n"
  shows "node < node' \<and> node' \<le> n"
proof (cases "getVariantGenotypeNodes m node")
  case (Inl e)
  with assms(1) show ?thesis by (simp add: walkStep_def)
next
  case (Inr found)
  show ?thesis
  proof (cases found)
    case None
    with Inr assms show ?thesis
      by (auto simp: walkStep_def wrapNodeId_def nodeIdMax_def)
  next
    case (Some hit)
    obtain paths lastNode where h: "hit = (paths, lastNode)" by (cases hit)
    from getVariantGenotypeNodes_range[OF Inr[unfolded Some h]] assms(4)
    have "node \<le> lastNode" "lastNode < n" by auto
    moreover from Inr Some h assms(1) have "node' = wrapNodeId (lastNode + 1)"
      by (auto simp: walkStep_def split: sum.splits)
    ultimately show ?thesis
      using assms(3) by (auto simp: wrapNodeId_def nodeIdMax_def)
  qed
qed

lemma walk_returns:
  "node \<le> n \<Longrightarrow> n \<le> nodeIdMax \<Longrightarrow> \<forall>nodeRange\<in>fst ` set m. snd nodeRange < n \<Longrightarrow>
   \<exists>r. walk n m node ds = Some r"
proof (induction "n - node" arbitrary: node ds rule: less_induct)
  case less
  show ?case
  proof (cases "node = n")
    case True
    then show ?thesis by (subst walk.simps) simp
  next
    case False
    with less.prems have lt: "node < n" by simp
    show ?thesis
    proof (cases "walkStep m node ds")
      case (Inl e)
      with False show ?thesis by (subst walk.simps) simp
    next
      case (Inr next_state)
      obtain node' ds' where ns: "next_state = (node', ds')" by (cases next_state)
      from walkStep_advances[OF Inr[unfolded ns] lt less.prems(2,3)]
      have adv: "node < node'" "node' \<le> n" by simp_all
      then have "n - node' < n - node" using lt by simp
      from less.hyps[OF this adv(2) less.prems(2,3)]
      obtain r where "walk n m node' ds' = Some r" by blast
      with False Inr ns show ?thesis by (subst walk.simps) simp
    qed
  qed
qed

lemma nodeRangeOf_single:
  "node < nodeIdMax \<Longrightarrow> nodeRangeOf [node] (nodeIdMax, nodeIdLowest) = (node, node)"
  by (simp add: nodeIdMax_def nodeIdLowest_def)

lemma variantGenotypeNodes_range:
  assumes "variantGenotypeNodes meanFragLen fs vcfPath v = Inr (nodeRange, genotypeNodes)"
    and "\<forall>node\<in>set (variantNodes v). node < n" and "n \<le> nodeIdMax"
  shows "snd nodeRange < n"
proof -
  from assms(1) obtain node where v: "variantNodes v = [node]"
    by (cases "variantNodes v"; cases "tl (variantNodes v)")
       (auto simp: variantGenotypeNodes_def split: if_splits)
  with assms(2,3) have n: "node < n" "node < nodeIdMax" by auto
  from assms(1) v have "nodeRange = nodeRangeOf [node] (nodeIdMax, nodeIdLowest)"
    by (auto simp: variantGenotypeNodes_def Let_def split: if_splits sum.splits)
  also have "\<dots> = (node, node)" by (rule nodeRangeOf_single[OF n(2)])
  finally show ?thesis using n(1) by simp
qed

lemma set_emplace: "set (emplace k v m) \<subseteq> insert (k, v) (set m)"
proof (induction m)
  case Nil
  then show ?case by simp
next
  case (Cons e m)
  then show ?case by (cases e) auto
qed

lemma genotypeNodesLoop_ranges:
  "genotypeNodesLoop meanFragLen fs vcfPath vs m = Inr m' \<Longrightarrow>
   \<forall>v\<in>set vs. \<forall>node\<in>set (variantNodes v). node < n \<Longrightarrow> n \<le> nodeIdMax \<Longrightarrow>
   \<forall>nodeRange\<in>fst ` set m. snd nodeRange < n \<Longrightarrow>
   \<forall>nodeRange\<in>fst ` set m'. snd nodeRange < n"
proof (induction vs arbitrary: m)
  case Nil
  then show ?case by simp
next
  case (Cons v vs)
  from Cons.prems(1) obtain nodeRange genotypeNodes where
    one: "variantGenotypeNodes meanFragLen fs vcfPath v = Inr (nodeRange, genotypeNodes)"
    and rest: "genotypeNodesLoop meanFragLen fs vcfPath vs (emplace nodeRange genotypeNodes m) = Inr m'"
    by (auto split: sum.splits)
  from variantGenotypeNodes_range[OF one _ Cons.prems(3)] Cons.prems(2)
  have "snd nodeRange < n" by simp
  with Cons.prems(4) set_emplace[of nodeRange genotypeNodes m]
  have "\<forall>r\<in>fst ` set (emplace nodeRange genotypeNodes m). snd r < n"
    by fastforce
  from Cons.IH[OF rest _ Cons.prems(3) this] Cons.prems(2) show ?case by simp
qed

lemma getCandidateDiplotypes_returns:
  assumes "1 \<le> numNodes (regionGraph locusSpec)" and "numNodes (regionGraph locusSpec) \<le> nodeIdMax"
    and "\<forall>v\<in>set (variantSpecs locusSpec). \<forall>node\<in>set (variantNodes v). node < numNodes (regionGraph locusSpec)"
  shows "\<exists>r. getCandidateDiplotypes meanFragLen fs vcfPath locusSpec = Some r"
proof (cases "getGenotypeNodesByNodeRange meanFragLen fs vcfPath locusSpec")
  case (Inl e)
  then show ?thesis by (simp add: getCandidateDiplotypes_def)
next
  case (Inr m)
  show ?thesis
  proof (cases m)
    case Nil
    with Inr show ?thesis by (simp add: getCandidateDiplotypes_def)
  next
    case (Cons first rest)
    from genotypeNodesLoop_ranges[OF Inr[unfolded getGenotypeNodesByNodeRange_def] assms(3,2)]
    have "\<forall>nodeRange\<in>fst ` set m. snd nodeRange < numNodes (regionGraph locusSpec)" by simp
    from walk_returns[OF assms(1,2) this]
    obtain r where "walk (numNodes (regionGraph locusSpec)) m 1 [replicate (length (snd first)) [0]] = Some r"
      by blast
    with Inr Cons show ?thesis
      by (cases r) (auto simp: getCandidateDiplotypes_def Let_def split: sum.splits)
  qed
qed

subsection \<open>The worked example\<close>

lemma map_34:
  assumes "extractRepeatLengths fs vcfPath rid = Inr [3, 4]" and "4 \<le> meanFragLen"
  shows "getGenotypeNodesByNodeRange meanFragLen fs vcfPath
           \<lparr>regionGraph = g, variantSpecs = [\<lparr>variantId = rid, classificationType = kRepeat, variantNodes = [1]\<rparr>]\<rparr>
         = Inr [((1, 1), [[1, 1, 1], [1, 1, 1, 1]])]"
  using assms
  by (simp add: getGenotypeNodesByNodeRange_def variantGenotypeNodes_def capLengths_def
      nodeIdMax_def nodeIdLowest_def replicate_numeral)

lemma walk_34:
  "walk 3 [((1, 1), [[1, 1, 1], [1, 1, 1, 1]])] 1 [[[0], [0]]] =
     Some (Inr [[[0, 1, 1, 1, 2], [0, 1, 1, 1, 1, 2]], [[0, 1, 1, 1, 1, 2], [0, 1, 1, 1, 2]]])"
proof -
  have s1: "walkStep [((1, 1), [[1, 1, 1], [1, 1, 1, 1]])] 1 [[[0], [0]]] =
      Inr (2, [[[0, 1, 1, 1], [0, 1, 1, 1, 1]], [[0, 1, 1, 1, 1], [0, 1, 1, 1]]])"
    by (simp add: walkStep_def extendOne_def wrapNodeId_def)
  have s2: "walkStep [((1, 1), [[1, 1, 1], [1, 1, 1, 1]])] 2
        [[[0, 1, 1, 1], [0, 1, 1, 1, 1]], [[0, 1, 1, 1, 1], [0, 1, 1, 1]]] =
      Inr (3, [[[0, 1, 1, 1, 2], [0, 1, 1, 1, 1, 2]], [[0, 1, 1, 1, 1, 2], [0, 1, 1, 1, 2]]])"
    by (simp add: walkStep_def appendNode_def wrapNodeId_def)
  show ?thesis
    by (simp only: walk_step[OF _ s1] walk_step[OF _ s2] walk_done)
qed

lemma diplotypes_34:
  "makeDiplotypes g r [[[0, 1, 1, 1, 2], [0, 1, 1, 1, 1, 2]], [[0, 1, 1, 1, 1, 2], [0, 1, 1, 1, 2]]] =
     Inr [[\<lparr>graphRawPtr = g, startPosition = 0, nodeIds = [0, 1, 1, 1, 2], endPosition = r\<rparr>,
           \<lparr>graphRawPtr = g, startPosition = 0, nodeIds = [0, 1, 1, 1, 1, 2], endPosition = r\<rparr>],
          [\<lparr>graphRawPtr = g, startPosition = 0, nodeIds = [0, 1, 1, 1, 2], endPosition = r\<rparr>,
           \<lparr>graphRawPtr = g, startPosition = 0, nodeIds = [0, 1, 1, 1, 1, 2], endPosition = r\<rparr>]]"
  by (simp add: makeDiplotype_def pathLess_def pathKey_def swapHaplotypes_def)

lemma sortUnique_pair: "sortUnique [d, d] = [d]"
  by (simp add: sortUnique_def)

lemma run_34:
  assumes "numNodes g = 3"
    and "extractRepeatLengths fs vcfPath rid = Inr [3, 4]" and "4 \<le> meanFragLen"
  shows "getCandidateDiplotypes meanFragLen fs vcfPath
           \<lparr>regionGraph = g, variantSpecs = [\<lparr>variantId = rid, classificationType = kRepeat, variantNodes = [1]\<rparr>]\<rparr>
         = Some (Inr [[haplotypePath g [0, 1, 1, 1, 2], haplotypePath g [0, 1, 1, 1, 1, 2]]])"
  using assms(1)
  by (simp add: getCandidateDiplotypes_def map_34[OF assms(2,3)] walk_34 diplotypes_34
      sortUnique_pair haplotypePath_def replicate_numeral Let_def
      makeDiplotype_def pathLess_def pathKey_def swapHaplotypes_def del: One_nat_def)

lemma summarize_34:
  assumes "numNodes g = 3" and "nodeSeq g 1 = ''CAG''" and "hasEdge g 1 1"
  shows "summarizePath (haplotypePath g [0, 1, 1, 1, 2]) = Inr ''(LF)(CAG){3}(RF)''"
    and "summarizePath (haplotypePath g [0, 1, 1, 1, 1, 2]) = Inr ''(LF)(CAG){4}(RF)''"
  using assms
  by (simp_all add: summarizePath_def haplotypePath_def wrapNodeId_def to_string_def)

lemma example_run:
  "getCandidateDiplotypes 500 exampleFs ''sample.vcf'' exampleLocus =
     Some (Inr [[haplotypePath exampleGraph [0, 1, 1, 1, 2], haplotypePath exampleGraph [0, 1, 1, 1, 1, 2]]])"
  unfolding exampleLocus_def
  by (rule run_34[OF _ example_lengths]) (simp_all add: exampleGraph_def)

text \<open>
  C2. Every diplotype that \<open>getCandidateDiplotypes\<close> returns has its haplotypes in
  canonical order: the front path is not smaller than the back path. Hence of a diplotype
  and its haplotype swap the result holds at most one: when both are in the result they
  are the same diplotype.
\<close>

theorem canonical_haplotype_order:
  "getCandidateDiplotypes meanFragLen fs vcfPath locusSpec = Some (Inr diplotypes) \<longrightarrow>
     (\<forall>d\<in>set diplotypes.
        d \<noteq> [] \<and> \<not> pathLess (hd d) (last d) \<and> pathKey (last d) \<le> pathKey (hd d)) \<and>
     (\<forall>d\<in>set diplotypes. swapHaplotypes d \<in> set diplotypes \<longrightarrow> swapHaplotypes d = d)"
proof (intro impI conjI ballI)
  fix d
  assume run: "getCandidateDiplotypes meanFragLen fs vcfPath locusSpec = Some (Inr diplotypes)"
    and d: "d \<in> set diplotypes"
  from output_members[OF run d] obtain r where
    ne: "d \<noteq> []" and canon: "\<not> pathLess (hd d) (last d)"
    and on: "\<forall>p\<in>set d. pathOn (regionGraph locusSpec) r p"
    by blast
  show "d \<noteq> []" by (rule ne)
  show "\<not> pathLess (hd d) (last d)" by (rule canon)
  show "pathKey (last d) \<le> pathKey (hd d)" using canon by (simp add: pathLess_def)
  assume s: "swapHaplotypes d \<in> set diplotypes"
  show "swapHaplotypes d = d"
  proof (cases "length d = 1")
    case True
    then obtain p where "d = [p]" by (cases d) auto
    then show ?thesis by (simp add: swapHaplotypes_one)
  next
    case False
    from output_members[OF run s] have "\<not> pathLess (hd (swapHaplotypes d)) (last (swapHaplotypes d))"
      by blast
    with ne False have "\<not> pathLess (last d) (hd d)"
      by (simp add: hd_swapHaplotypes last_swapHaplotypes)
    with canon have "pathKey (hd d) = pathKey (last d)"
      by (simp add: pathLess_def)
    moreover have "pathOn (regionGraph locusSpec) r (hd d)" "pathOn (regionGraph locusSpec) r (last d)"
      using ne on by simp_all
    ultimately have "hd d = last d" by (blast intro: pathOn_eq)
    then show ?thesis by (rule swapHaplotypes_id)
  qed
qed

theorem canonical_haplotype_order_witness:
  "getCandidateDiplotypes 500 exampleFs ''sample.vcf'' exampleLocus =
     Some (Inr [[haplotypePath exampleGraph [0, 1, 1, 1, 2], haplotypePath exampleGraph [0, 1, 1, 1, 1, 2]]]) \<and>
   \<not> pathLess (haplotypePath exampleGraph [0, 1, 1, 1, 2]) (haplotypePath exampleGraph [0, 1, 1, 1, 1, 2]) \<and>
   swapHaplotypes [haplotypePath exampleGraph [0, 1, 1, 1, 2], haplotypePath exampleGraph [0, 1, 1, 1, 1, 2]]
     \<notin> set [[haplotypePath exampleGraph [0, 1, 1, 1, 2], haplotypePath exampleGraph [0, 1, 1, 1, 1, 2]]]"
  using canonical_haplotype_order [of 500 exampleFs "''sample.vcf''" exampleLocus
      "[[haplotypePath exampleGraph [0, 1, 1, 1, 2], haplotypePath exampleGraph [0, 1, 1, 1, 1, 2]]]"]
    example_run
  by (simp add: swapHaplotypes_two haplotypePath_def)

text \<open>
  C4. The enumeration is a function of the fragment-length bound, the call file and the
  locus, so two runs on the same input give the same output; it returns whenever the
  graph has a node and the nodes of the variants are nodes of the graph. The output is
  strictly ascending in the order of diplotypes, that is sorted and free of duplicates,
  and sorting and deduplicating it again leaves it as it is.
\<close>

theorem enumeration_sorted_without_duplicates:
  "(1 \<le> numNodes (regionGraph locusSpec) \<and> numNodes (regionGraph locusSpec) \<le> nodeIdMax \<and>
    (\<forall>v\<in>set (variantSpecs locusSpec). \<forall>node\<in>set (variantNodes v).
        node < numNodes (regionGraph locusSpec)) \<longrightarrow>
      (\<exists>r. getCandidateDiplotypes meanFragLen fs vcfPath locusSpec = Some r)) \<and>
   (getCandidateDiplotypes meanFragLen fs vcfPath locusSpec = Some (Inr diplotypes) \<longrightarrow>
      sorted_wrt diplotypeLess diplotypes \<and> distinct diplotypes \<and> sortUnique diplotypes = diplotypes)"
proof (rule conjI; rule impI)
  assume "1 \<le> numNodes (regionGraph locusSpec) \<and> numNodes (regionGraph locusSpec) \<le> nodeIdMax \<and>
    (\<forall>v\<in>set (variantSpecs locusSpec). \<forall>node\<in>set (variantNodes v).
        node < numNodes (regionGraph locusSpec))"
  then show "\<exists>r. getCandidateDiplotypes meanFragLen fs vcfPath locusSpec = Some r"
    by (intro getCandidateDiplotypes_returns) simp_all
next
  assume run: "getCandidateDiplotypes meanFragLen fs vcfPath locusSpec = Some (Inr diplotypes)"
  from getCandidateDiplotypes_output[OF run] obtain nbd unsorted r where
    m: "makeDiplotypes (regionGraph locusSpec) r nbd = Inr unsorted"
    and ds: "diplotypes = sortUnique unsorted"
    by blast
  have on: "\<forall>d\<in>set unsorted. \<forall>p\<in>set d. pathOn (regionGraph locusSpec) r p"
  proof
    fix d assume "d \<in> set unsorted"
    from makeDiplotypes_members[OF m this] obtain nodes where
      "makeDiplotype (regionGraph locusSpec) r nodes = Inr d" by blast
    from makeDiplotype_props(3)[OF this] show "\<forall>p\<in>set d. pathOn (regionGraph locusSpec) r p" .
  qed
  have inj: "inj_on (map pathKey) (set (sort_key (map pathKey) unsorted))"
    unfolding inj_on_def using on by (auto intro: diplotype_key_inj)
  have "sorted (map (map pathKey) (sort_key (map pathKey) unsorted))"
    by (rule sorted_sort_key)
  from remdups_adj_strict[OF this inj]
  have strict: "sorted_wrt diplotypeLess diplotypes"
    by (simp add: ds sortUnique_def diplotypeLess_fun)
  have irrefl: "\<And>d. \<not> diplotypeLess d d" by (simp add: diplotypeLess_def)
  have dist: "distinct diplotypes"
    using strict irrefl by (induction diplotypes) auto
  have "sorted_wrt (<) (map (map pathKey) diplotypes)"
    using strict by (simp add: sorted_wrt_map diplotypeLess_fun)
  then have "sorted (map (map pathKey) diplotypes)"
    by (simp add: strict_sorted_iff)
  then have "sort_key (map pathKey) diplotypes = diplotypes"
    by (rule sort_key_id_if_sorted)
  then have "sortUnique diplotypes = diplotypes"
    using dist by (simp add: sortUnique_def remdups_adj_distinct)
  with strict dist show "sorted_wrt diplotypeLess diplotypes \<and> distinct diplotypes \<and> sortUnique diplotypes = diplotypes"
    by simp
qed

theorem enumeration_sorted_without_duplicates_witness:
  "getCandidateDiplotypes 500 exampleFs ''sample.vcf'' exampleLocus =
     Some (Inr [[haplotypePath exampleGraph [0, 1, 1, 1, 2], haplotypePath exampleGraph [0, 1, 1, 1, 1, 2]]]) \<and>
   sortUnique [[haplotypePath exampleGraph [0, 1, 1, 1, 2], haplotypePath exampleGraph [0, 1, 1, 1, 1, 2]]] =
     [[haplotypePath exampleGraph [0, 1, 1, 1, 2], haplotypePath exampleGraph [0, 1, 1, 1, 1, 2]]] \<and>
   numNodes (regionGraph exampleLocus) = 3 \<and> variantSpecs exampleLocus \<noteq> []"
  using enumeration_sorted_without_duplicates [of exampleLocus 500 exampleFs "''sample.vcf''"
      "[[haplotypePath exampleGraph [0, 1, 1, 1, 2], haplotypePath exampleGraph [0, 1, 1, 1, 1, 2]]]"]
    example_run
  by (simp add: exampleLocus_def exampleGraph_def)

text \<open>
  C5. On a graph of three nodes whose node 1 is a self-loop with motif CAG, with repeat
  counts 3/4 for the variant on node 1 and a bound of at least 4, the enumeration returns
  exactly one diplotype. Its front haplotype visits node 1 three times, its back haplotype
  four times, and it prints as \<^verbatim>\<open>(LF)(CAG){3}(RF)/(LF)(CAG){4}(RF)\<close>.
\<close>

theorem worked_example_3_4:
  "numNodes g = 3 \<and> nodeSeq g 1 = ''CAG'' \<and> hasEdge g 1 1 \<and>
   extractRepeatLengths fs vcfPath rid = Inr [3, 4] \<and> 4 \<le> meanFragLen \<longrightarrow>
     getCandidateDiplotypes meanFragLen fs vcfPath
       \<lparr>regionGraph = g,
        variantSpecs = [\<lparr>variantId = rid, classificationType = kRepeat, variantNodes = [1]\<rparr>]\<rparr> =
       Some (Inr [[haplotypePath g [0, 1, 1, 1, 2], haplotypePath g [0, 1, 1, 1, 1, 2]]]) \<and>
     count_list (nodeIds (haplotypePath g [0, 1, 1, 1, 2])) 1 = 3 \<and>
     count_list (nodeIds (haplotypePath g [0, 1, 1, 1, 1, 2])) 1 = 4 \<and>
     printDiplotype [haplotypePath g [0, 1, 1, 1, 2], haplotypePath g [0, 1, 1, 1, 1, 2]] =
       Inr ''(LF)(CAG){3}(RF)/(LF)(CAG){4}(RF)''"
proof (intro impI)
  assume a: "numNodes g = 3 \<and> nodeSeq g 1 = ''CAG'' \<and> hasEdge g 1 1 \<and>
   extractRepeatLengths fs vcfPath rid = Inr [3, 4] \<and> 4 \<le> meanFragLen"
  then have n: "numNodes g = 3" and s: "nodeSeq g 1 = ''CAG''" and l: "hasEdge g 1 1"
    and e: "extractRepeatLengths fs vcfPath rid = Inr [3, 4]" and c: "4 \<le> meanFragLen"
    by simp_all
  have "printDiplotype [haplotypePath g [0, 1, 1, 1, 2], haplotypePath g [0, 1, 1, 1, 1, 2]] =
       Inr ''(LF)(CAG){3}(RF)/(LF)(CAG){4}(RF)''"
    by (simp add: printDiplotype_def summarize_34[OF n s l] del: One_nat_def)
  moreover have "count_list (nodeIds (haplotypePath g [0, 1, 1, 1, 2])) 1 = 3"
    "count_list (nodeIds (haplotypePath g [0, 1, 1, 1, 1, 2])) 1 = 4"
    by (simp_all add: haplotypePath_def)
  ultimately show "getCandidateDiplotypes meanFragLen fs vcfPath
       \<lparr>regionGraph = g,
        variantSpecs = [\<lparr>variantId = rid, classificationType = kRepeat, variantNodes = [1]\<rparr>]\<rparr> =
       Some (Inr [[haplotypePath g [0, 1, 1, 1, 2], haplotypePath g [0, 1, 1, 1, 1, 2]]]) \<and>
     count_list (nodeIds (haplotypePath g [0, 1, 1, 1, 2])) 1 = 3 \<and>
     count_list (nodeIds (haplotypePath g [0, 1, 1, 1, 1, 2])) 1 = 4 \<and>
     printDiplotype [haplotypePath g [0, 1, 1, 1, 2], haplotypePath g [0, 1, 1, 1, 1, 2]] =
       Inr ''(LF)(CAG){3}(RF)/(LF)(CAG){4}(RF)''"
    using run_34[OF n e c] by simp
qed

theorem worked_example_3_4_witness:
  "numNodes exampleGraph = 3 \<and> nodeSeq exampleGraph 1 = ''CAG'' \<and> hasEdge exampleGraph 1 1 \<and>
   extractRepeatLengths exampleFs ''sample.vcf'' ''HTT'' = Inr [3, 4] \<and>
   getCandidateDiplotypes 500 exampleFs ''sample.vcf'' exampleLocus =
     Some (Inr [[haplotypePath exampleGraph [0, 1, 1, 1, 2], haplotypePath exampleGraph [0, 1, 1, 1, 1, 2]]]) \<and>
   printDiplotype [haplotypePath exampleGraph [0, 1, 1, 1, 2], haplotypePath exampleGraph [0, 1, 1, 1, 1, 2]] =
     Inr ''(LF)(CAG){3}(RF)/(LF)(CAG){4}(RF)''"
proof -
  have g: "numNodes exampleGraph = 3 \<and> nodeSeq exampleGraph 1 = ''CAG'' \<and> hasEdge exampleGraph 1 1"
    by (simp add: exampleGraph_def)
  from worked_example_3_4 [of exampleGraph exampleFs "''sample.vcf''" "''HTT''" 500] g example_lengths
  show ?thesis by (simp add: exampleLocus_def)
qed

subsection \<open>The summary of a path\<close>

lemma set_firstVisits: "set (firstVisits ns) = set ns"
  by (induction ns) auto

lemma distinct_firstVisits: "distinct (firstVisits ns)"
  by (induction ns) (auto simp: set_firstVisits)

lemma wrap_successor:
  "n < numNodes g \<Longrightarrow> numNodes g \<le> nodeIdMax \<Longrightarrow> n \<noteq> 0 \<Longrightarrow>
   (wrapNodeId (n + 1) = numNodes g) = (n = numNodes g - 1)"
  by (auto simp: wrapNodeId_def nodeIdMax_def)

lemma summarizeLoop_step:
  assumes "n \<notin> observed" and "n < numNodes g" and "numNodes g \<le> nodeIdMax"
  shows "summarizeLoop g ids (n # rest) observed summary =
         summarizeLoop g ids rest (insert n observed) (summary @ renderNode g ids n)"
proof (cases "n = 0")
  case True
  with assms show ?thesis by (simp add: renderNode_def)
next
  case False
  with assms wrap_successor[OF assms(2,3) False] show ?thesis
    by (simp add: renderNode_def Let_def)
qed

lemma summarizeLoop_renders:
  "\<forall>n\<in>set rest. n < numNodes g \<Longrightarrow> numNodes g \<le> nodeIdMax \<Longrightarrow>
   summarizeLoop g ids rest observed summary =
     Inr (summary @ concat (map (renderNode g ids) (filter (\<lambda>n. n \<notin> observed) (firstVisits rest))))"
proof (induction rest arbitrary: observed summary)
  case Nil
  then show ?case by simp
next
  case (Cons n rest)
  show ?case
  proof (cases "n \<in> observed")
    case True
    then have "filter (\<lambda>m. m \<notin> observed) (filter (\<lambda>m. m \<noteq> n) (firstVisits rest)) =
               filter (\<lambda>m. m \<notin> observed) (firstVisits rest)"
      by (auto simp: filter_filter intro: filter_cong)
    with True Cons show ?thesis by simp
  next
    case False
    have f: "filter (\<lambda>m. m \<notin> observed) (filter (\<lambda>m. m \<noteq> n) (firstVisits rest)) =
             filter (\<lambda>m. m \<notin> insert n observed) (firstVisits rest)"
      by (auto simp: filter_filter intro: filter_cong)
    from Cons.prems have n: "n < numNodes g" by simp
    have "summarizeLoop g ids (n # rest) observed summary =
          summarizeLoop g ids rest (insert n observed) (summary @ renderNode g ids n)"
      by (rule summarizeLoop_step[OF False n Cons.prems(2)])
    also have "\<dots> = Inr ((summary @ renderNode g ids n) @
        concat (map (renderNode g ids) (filter (\<lambda>m. m \<notin> insert n observed) (firstVisits rest))))"
      using Cons.prems by (intro Cons.IH) simp_all
    finally show ?thesis using False f by simp
  qed
qed

lemma firstVisits_order:
  "sorted_wrt (\<lambda>a b. firstIndex ns a < firstIndex ns b) (firstVisits ns)"
proof (induction ns)
  case Nil
  then show ?case by simp
next
  case (Cons n rest)
  have later: "\<And>a. a \<noteq> n \<Longrightarrow> firstIndex (n # rest) a = Suc (firstIndex rest a)"
    by (simp add: firstIndex_def)
  have "sorted_wrt (\<lambda>a b. firstIndex rest a < firstIndex rest b) (filter (\<lambda>m. m \<noteq> n) (firstVisits rest))"
    using Cons.IH by (rule sorted_wrt_filter)
  then have "sorted_wrt (\<lambda>a b. firstIndex (n # rest) a < firstIndex (n # rest) b)
               (filter (\<lambda>m. m \<noteq> n) (firstVisits rest))"
    by (rule sorted_wrt_mono_rel[rotated]) (simp add: later)
  moreover have "\<forall>b\<in>set (filter (\<lambda>m. m \<noteq> n) (firstVisits rest)).
                   firstIndex (n # rest) n < firstIndex (n # rest) b"
    by (simp add: later) (simp add: firstIndex_def)
  ultimately show ?case by simp
qed

text \<open>
  C6. The summary of a path renders every distinct node id of the path exactly once, in
  the order of the first visits: node 0 as \<^verbatim>\<open>(LF)\<close>, node \<open>numNodes - 1\<close> as \<^verbatim>\<open>(RF)\<close>, any
  other node with a self-loop as its sequence followed by the number of its occurrences
  on the whole path, and any other node as its sequence. The node ids of the path are
  nodes of the graph, and the graph has at most \<open>nodeIdMax\<close> nodes.
\<close>

theorem summarizePath_first_visits:
  "(\<forall>n\<in>set (nodeIds path). n < numNodes (graphRawPtr path)) \<and> numNodes (graphRawPtr path) \<le> nodeIdMax \<longrightarrow>
     summarizePath path =
       Inr (concat (map (renderNode (graphRawPtr path) (nodeIds path)) (firstVisits (nodeIds path)))) \<and>
     distinct (firstVisits (nodeIds path)) \<and>
     set (firstVisits (nodeIds path)) = set (nodeIds path) \<and>
     sorted_wrt (\<lambda>a b. firstIndex (nodeIds path) a < firstIndex (nodeIds path) b) (firstVisits (nodeIds path))"
  by (simp add: summarizePath_def summarizeLoop_renders distinct_firstVisits set_firstVisits
      firstVisits_order)

theorem summarizePath_first_visits_witness:
  "summarizePath (haplotypePath exampleGraph [0, 1, 1, 1, 2]) = Inr ''(LF)(CAG){3}(RF)'' \<and>
   firstVisits [0, 1, 1, 1, 2] = [0, 1, 2] \<and>
   renderNode exampleGraph [0, 1, 1, 1, 2] 1 = ''(CAG){3}''"
proof -
  have "(\<forall>n\<in>set (nodeIds (haplotypePath exampleGraph [0, 1, 1, 1, 2])).
           n < numNodes (graphRawPtr (haplotypePath exampleGraph [0, 1, 1, 1, 2]))) \<and>
        numNodes (graphRawPtr (haplotypePath exampleGraph [0, 1, 1, 1, 2])) \<le> nodeIdMax"
    by (simp add: haplotypePath_def exampleGraph_def nodeIdMax_def)
  with summarizePath_first_visits [of "haplotypePath exampleGraph [0, 1, 1, 1, 2]"]
  have "summarizePath (haplotypePath exampleGraph [0, 1, 1, 1, 2]) =
      Inr (concat (map (renderNode exampleGraph [0, 1, 1, 1, 2]) (firstVisits [0, 1, 1, 1, 2])))"
    by (simp add: haplotypePath_def)
  moreover have "renderNode exampleGraph [0, 1, 1, 1, 2] 0 = ''(LF)''"
    "renderNode exampleGraph [0, 1, 1, 1, 2] 1 = ''(CAG){3}''"
    "renderNode exampleGraph [0, 1, 1, 1, 2] 2 = ''(RF)''"
    by (simp_all add: renderNode_def exampleGraph_def to_string_def)
  ultimately show ?thesis by simp
qed

subsection \<open>Overlap counts of the k-mer index\<close>

lemma edge_visits_node: "pathTraversesEdge p u n \<Longrightarrow> pathVisitsNode p n"
  unfolding pathTraversesEdge_def pathVisitsNode_def
  by (cases "nodeIds p") (auto dest: set_zip_rightD)

lemma overlap_subset:
  "set (map fst (filter (\<lambda>(kmer, paths). \<exists>p\<in>set paths. pathTraversesEdge p u n) index)) \<subseteq>
   set (map fst (filter (\<lambda>(kmer, paths). \<exists>p\<in>set paths. pathVisitsNode p n) index))"
  by (auto dest: edge_visits_node)

lemma single_occurrence_subset:
  "set (map fst (filter (\<lambda>(kmer, paths).
      length paths = 1 \<and> (\<exists>p\<in>set paths. pathTraversesEdge p u n)) index)) \<subseteq>
   set (map fst (filter (\<lambda>(kmer, paths).
      length paths = 1 \<and> (\<exists>p\<in>set paths. pathVisitsNode p n)) index))"
  by (auto dest: edge_visits_node)

text \<open>
  The narrower count gives the four values that the test
  \<^verbatim>\<open>UniqueKmerCounting.TypicalIndex_UniqueKmersCounted\<close> expects; the count as the spec
  words it gives other values on the same index.
\<close>

lemma unique_kmer_counting_test:
  "singleOccurrenceKmersOverlappingEdge threeMerIndex 0 1 = 1 \<and>
   singleOccurrenceKmersOverlappingEdge threeMerIndex 1 2 = 2 \<and>
   singleOccurrenceKmersOverlappingNode threeMerIndex 0 = 3 \<and>
   singleOccurrenceKmersOverlappingNode threeMerIndex 2 = 4"
  by (simp add: singleOccurrenceKmersOverlappingEdge_def singleOccurrenceKmersOverlappingNode_def
      threeMerIndex_def kmerPath_def pathTraversesEdge_def pathVisitsNode_def Let_def)

lemma spec_count_on_test_index:
  "uniqueKmersOverlappingEdge threeMerIndex 0 1 = 2 \<and>
   uniqueKmersOverlappingEdge threeMerIndex 1 2 = 2 \<and>
   uniqueKmersOverlappingNode threeMerIndex 0 = 4 \<and>
   uniqueKmersOverlappingNode threeMerIndex 2 = 5"
  by (simp add: uniqueKmersOverlappingEdge_def uniqueKmersOverlappingNode_def threeMerIndex_def
      kmerPath_def pathTraversesEdge_def pathVisitsNode_def Let_def)

lemma two_mer_overlaps:
  "uniqueKmersOverlappingEdge twoMerIndex 0 1 = 2 \<and> uniqueKmersOverlappingNode twoMerIndex 1 = 3 \<and>
   singleOccurrenceKmersOverlappingEdge twoMerIndex 0 1 = 1 \<and>
   singleOccurrenceKmersOverlappingNode twoMerIndex 1 = 1"
  by (simp add: uniqueKmersOverlappingEdge_def uniqueKmersOverlappingNode_def
      singleOccurrenceKmersOverlappingEdge_def singleOccurrenceKmersOverlappingNode_def
      twoMerIndex_def kmerPath_def pathTraversesEdge_def pathVisitsNode_def Let_def)

text \<open>
  C9. For every index and all nodes \<open>u\<close> and \<open>n\<close>, the number of k-mers overlapping node \<open>n\<close>
  is at least the number of k-mers overlapping the edge from \<open>u\<close> to \<open>n\<close>, because a path
  that traverses the edge visits \<open>n\<close>. This holds for the count as the spec words it and
  for the count of the k-mers with a single occurrence path.
\<close>

theorem node_overlap_bounds_edge_overlap:
  "uniqueKmersOverlappingEdge index u n \<le> uniqueKmersOverlappingNode index n \<and>
   singleOccurrenceKmersOverlappingEdge index u n \<le> singleOccurrenceKmersOverlappingNode index n \<and>
   (pathTraversesEdge p u n \<longrightarrow> pathVisitsNode p n)"
proof (intro conjI)
  show "uniqueKmersOverlappingEdge index u n \<le> uniqueKmersOverlappingNode index n"
    unfolding uniqueKmersOverlappingEdge_def uniqueKmersOverlappingNode_def
    by (intro card_mono overlap_subset) simp
  show "singleOccurrenceKmersOverlappingEdge index u n \<le> singleOccurrenceKmersOverlappingNode index n"
    unfolding singleOccurrenceKmersOverlappingEdge_def singleOccurrenceKmersOverlappingNode_def
    by (intro card_mono single_occurrence_subset) simp
  show "pathTraversesEdge p u n \<longrightarrow> pathVisitsNode p n"
    by (blast intro: edge_visits_node)
qed

theorem node_overlap_bounds_edge_overlap_witness:
  "uniqueKmersOverlappingEdge twoMerIndex 0 1 = 2 \<and> uniqueKmersOverlappingNode twoMerIndex 1 = 3 \<and>
   pathTraversesEdge (kmerPath (deletionGraph ''AK'' ''GG'' ''CAG'') 1 [0, 1] 1) 0 1 \<and>
   pathVisitsNode (kmerPath (deletionGraph ''AK'' ''GG'' ''CAG'') 1 [0, 1] 1) 1"
proof -
  have "pathTraversesEdge (kmerPath (deletionGraph ''AK'' ''GG'' ''CAG'') 1 [0, 1] 1) 0 1"
    by (simp add: pathTraversesEdge_def kmerPath_def)
  with node_overlap_bounds_edge_overlap
      [of twoMerIndex 0 1 "kmerPath (deletionGraph ''AK'' ''GG'' ''CAG'') 1 [0, 1] 1"]
    two_mer_overlaps
  show ?thesis by simp
qed

subsection \<open>The allele count\<close>

lemma emplace_nonempty: "emplace k v m \<noteq> []"
  by (cases m) (auto split: if_splits)

lemma genotypeNodesLoop_keeps_nonempty:
  "m \<noteq> [] \<Longrightarrow> genotypeNodesLoop meanFragLen fs vcfPath vs m = Inr m' \<Longrightarrow> m' \<noteq> []"
proof (induction vs arbitrary: m)
  case Nil
  then show ?case by simp
next
  case (Cons v vs)
  from Cons.prems(2) obtain nodeRange genotypeNodes where
    "genotypeNodesLoop meanFragLen fs vcfPath vs (emplace nodeRange genotypeNodes m) = Inr m'"
    by (auto split: sum.splits)
  with Cons.IH[OF emplace_nonempty] show ?case .
qed

lemma genotypeNodesLoop_nonempty:
  "vs \<noteq> [] \<Longrightarrow> genotypeNodesLoop meanFragLen fs vcfPath vs m = Inr m' \<Longrightarrow> m' \<noteq> []"
proof (cases vs)
  case Nil
  assume "vs \<noteq> []"
  with Nil show ?thesis by simp
next
  case (Cons v rest)
  assume "genotypeNodesLoop meanFragLen fs vcfPath vs m = Inr m'"
  with Cons obtain nodeRange genotypeNodes where
    "genotypeNodesLoop meanFragLen fs vcfPath rest (emplace nodeRange genotypeNodes m) = Inr m'"
    by (auto split: sum.splits)
  with genotypeNodesLoop_keeps_nonempty[OF emplace_nonempty] show ?thesis .
qed

lemma extendOne_length:
  "extendOne genotype genotypeExtension = Inr children \<Longrightarrow> \<forall>c\<in>set children. length c = length genotype"
  by (auto simp: extendOne_def Let_def split: if_splits)

lemma extendDiplotype_length:
  "extendDiplotype genotypes genotypeExtension = Inr extended \<Longrightarrow>
   \<forall>g\<in>set genotypes. length g = numAlleles \<Longrightarrow> \<forall>c\<in>set extended. length c = numAlleles"
proof (induction genotypes arbitrary: extended)
  case Nil
  then show ?case by simp
next
  case (Cons g gs)
  from Cons.prems(1) obtain children rest where
    c: "extendOne g genotypeExtension = Inr children"
    and r: "extendDiplotype gs genotypeExtension = Inr rest"
    and e: "extended = children @ rest"
    by (auto split: sum.splits)
  from extendOne_length[OF c] Cons.prems(2) have "\<forall>c\<in>set children. length c = numAlleles"
    by simp
  moreover from Cons.IH[OF r] Cons.prems(2) have "\<forall>c\<in>set rest. length c = numAlleles"
    by simp
  ultimately show ?case using e by auto
qed

lemma appendNode_length:
  "\<forall>g\<in>set nodesByDiplotype. length g = numAlleles \<Longrightarrow>
   \<forall>g\<in>set (appendNode node nodesByDiplotype). length g = numAlleles"
  by (auto simp: appendNode_def)

lemma walkStep_length:
  "walkStep m node ds = Inr (node', ds') \<Longrightarrow> \<forall>d\<in>set ds. length d = numAlleles \<Longrightarrow>
   \<forall>d\<in>set ds'. length d = numAlleles"
  by (auto simp: walkStep_def appendNode_def split: sum.splits option.splits dest: extendDiplotype_length)

lemma walkStates_length:
  "\<forall>d\<in>set ds. length d = numAlleles \<Longrightarrow>
   \<forall>state\<in>set (walkStates k n m node ds). \<forall>d\<in>set (snd state). length d = numAlleles"
proof (induction k arbitrary: node ds)
  case 0
  then show ?case by simp
next
  case (Suc k)
  show ?case
  proof (cases "node = n")
    case True
    with Suc.prems show ?thesis by simp
  next
    case False
    show ?thesis
    proof (cases "walkStep m node ds")
      case (Inl e)
      with False Suc.prems show ?thesis by simp
    next
      case (Inr next_state)
      obtain node' ds' where ns: "next_state = (node', ds')" by (cases next_state)
      from walkStep_length[OF Inr[unfolded ns] Suc.prems]
      have "\<forall>d\<in>set ds'. length d = numAlleles" .
      from Suc.IH[OF this] Inr ns False Suc.prems show ?thesis by simp
    qed
  qed
qed


lemma walk_length:
  assumes "walk n m node ds = Some r"
  shows "(\<forall>d\<in>set ds. length d = numAlleles) \<longrightarrow> (\<forall>out. r = Inr out \<longrightarrow> (\<forall>d\<in>set out. length d = numAlleles))"
  using assms
proof (induction n m node ds r rule: walk.raw_induct[rotated 1, consumes 1])
  case (1 walk' n m node ds r)
  show ?case
  proof (cases "node = n")
    case True
    with 1(2) show ?thesis by auto
  next
    case False
    show ?thesis
    proof (cases "walkStep m node ds")
      case (Inl e)
      with False 1(2) show ?thesis by auto
    next
      case (Inr next_state)
      obtain node' ds' where ns: "next_state = (node', ds')" by (cases next_state)
      from False Inr ns 1(2) have w: "walk' n m node' ds' = Some r" by simp
      show ?thesis
      proof (intro impI)
        assume "\<forall>d\<in>set ds. length d = numAlleles"
        from walkStep_length[OF Inr[unfolded ns] this]
        have "\<forall>d\<in>set ds'. length d = numAlleles" .
        with 1(1)[OF w] show "\<forall>out. r = Inr out \<longrightarrow> (\<forall>d\<in>set out. length d = numAlleles)"
          by blast
      qed
    qed
  qed
qed

lemma makeDiplotypes_length:
  "makeDiplotypes g r nbd = Inr ds \<Longrightarrow> \<forall>n\<in>set nbd. length n = numAlleles \<Longrightarrow>
   \<forall>d\<in>set ds. length d = numAlleles"
proof
  fix d assume m: "makeDiplotypes g r nbd = Inr ds" and a: "\<forall>n\<in>set nbd. length n = numAlleles"
    and d: "d \<in> set ds"
  from makeDiplotypes_members[OF m d] obtain nodes where
    "nodes \<in> set nbd" "makeDiplotype g r nodes = Inr d" by blast
  with a makeDiplotype_props(4)[OF this(2)] show "length d = numAlleles" by simp
qed

lemma walkStates_nonempty: "walkStates k n m node ds \<noteq> []"
  by (cases k) simp_all

lemma walk_final_state:
  assumes "walk n m node ds = Some r"
  shows "\<forall>out. r = Inr out \<longrightarrow> (\<exists>k. last (walkStates k n m node ds) = (n, out))"
  using assms
proof (induction n m node ds r rule: walk.raw_induct[rotated 1, consumes 1])
  case (1 walk' n m node ds r)
  show ?case
  proof (cases "node = n")
    case True
    with 1(2) have "\<forall>out. r = Inr out \<longrightarrow> last (walkStates 0 n m node ds) = (n, out)"
      by auto
    then show ?thesis by blast
  next
    case False
    show ?thesis
    proof (cases "walkStep m node ds")
      case (Inl e)
      with False 1(2) show ?thesis by auto
    next
      case (Inr next_state)
      obtain node' ds' where ns: "next_state = (node', ds')" by (cases next_state)
      from False Inr ns 1(2) have w: "walk' n m node' ds' = Some r" by simp
      show ?thesis
      proof (intro allI impI)
        fix out assume "r = Inr out"
        with 1(1)[OF w] obtain k where "last (walkStates k n m node' ds') = (n, out)" by blast
        with False Inr ns walkStates_nonempty[of k n m node' ds']
        have "last (walkStates (Suc k) n m node ds) = (n, out)" by simp
        then show "\<exists>k. last (walkStates k n m node ds) = (n, out)" by blast
      qed
    qed
  qed
qed

text \<open>
  C10. The number of alleles is read from the first entry of the map of regions. For a
  locus without variants the map is empty and the read is that of the end iterator. For
  a locus with a variant the map has a first entry, every candidate diplotype of every
  state of the walk has exactly that number of haplotypes (the result of the walk is the
  last of these states), and so has every diplotype returned.
\<close>

theorem allele_count_from_first_region:
  "(variantSpecs locusSpec = [] \<longrightarrow>
      getGenotypeNodesByNodeRange meanFragLen fs vcfPath locusSpec = Inr [] \<and>
      getCandidateDiplotypes meanFragLen fs vcfPath locusSpec = Some (Inl UndefinedRead)) \<and>
   (variantSpecs locusSpec \<noteq> [] \<and>
    getGenotypeNodesByNodeRange meanFragLen fs vcfPath locusSpec = Inr m \<longrightarrow>
      m \<noteq> [] \<and>
      (\<forall>k. \<forall>state\<in>set (walkStates k (numNodes (regionGraph locusSpec)) m 1
                            [replicate (length (snd (hd m))) [0]]).
             \<forall>d\<in>set (snd state). length d = length (snd (hd m))) \<and>
      (\<forall>out. walk (numNodes (regionGraph locusSpec)) m 1 [replicate (length (snd (hd m))) [0]] =
               Some (Inr out) \<longrightarrow>
         (\<exists>k. last (walkStates k (numNodes (regionGraph locusSpec)) m 1
                      [replicate (length (snd (hd m))) [0]]) =
              (numNodes (regionGraph locusSpec), out))) \<and>
      (\<forall>diplotypes. getCandidateDiplotypes meanFragLen fs vcfPath locusSpec = Some (Inr diplotypes) \<longrightarrow>
         (\<forall>d\<in>set diplotypes. length d = length (snd (hd m)))))"
proof (intro conjI impI)
  assume e: "variantSpecs locusSpec = []"
  then show "getGenotypeNodesByNodeRange meanFragLen fs vcfPath locusSpec = Inr []"
    by (simp add: getGenotypeNodesByNodeRange_def)
  with e show "getCandidateDiplotypes meanFragLen fs vcfPath locusSpec = Some (Inl UndefinedRead)"
    by (simp add: getCandidateDiplotypes_def)
next
  assume a: "variantSpecs locusSpec \<noteq> [] \<and>
    getGenotypeNodesByNodeRange meanFragLen fs vcfPath locusSpec = Inr m"
  then have ne: "m \<noteq> []"
    unfolding getGenotypeNodesByNodeRange_def by (blast dest: genotypeNodesLoop_nonempty)
  show "m \<noteq> []" by (rule ne)
  have init: "\<forall>d\<in>set [replicate (length (snd (hd m))) [0::nat]]. length d = length (snd (hd m))"
    by simp
  show "\<forall>k. \<forall>state\<in>set (walkStates k (numNodes (regionGraph locusSpec)) m 1
                            [replicate (length (snd (hd m))) [0]]).
             \<forall>d\<in>set (snd state). length d = length (snd (hd m))"
    using walkStates_length[OF init] by blast
  show "\<forall>out. walk (numNodes (regionGraph locusSpec)) m 1 [replicate (length (snd (hd m))) [0]] =
               Some (Inr out) \<longrightarrow>
         (\<exists>k. last (walkStates k (numNodes (regionGraph locusSpec)) m 1
                      [replicate (length (snd (hd m))) [0]]) =
              (numNodes (regionGraph locusSpec), out))"
    using walk_final_state by blast
  show "\<forall>diplotypes. getCandidateDiplotypes meanFragLen fs vcfPath locusSpec = Some (Inr diplotypes) \<longrightarrow>
         (\<forall>d\<in>set diplotypes. length d = length (snd (hd m)))"
  proof (intro allI impI)
    fix diplotypes
    assume run: "getCandidateDiplotypes meanFragLen fs vcfPath locusSpec = Some (Inr diplotypes)"
    from a ne obtain first rest where m: "m = first # rest" by (cases m) auto
    from run a m obtain nbd unsorted where
      w: "walk (numNodes (regionGraph locusSpec)) m 1 [replicate (length (snd (hd m))) [0]] = Some (Inr nbd)"
      and mk: "makeDiplotypes (regionGraph locusSpec)
                 (int (length (nodeSeq (regionGraph locusSpec) (rightFlankNodeOf (regionGraph locusSpec)))))
                 nbd = Inr unsorted"
      and ds: "diplotypes = sortUnique unsorted"
      by (auto simp: getCandidateDiplotypes_def Let_def split: option.splits sum.splits)
    from walk_length[OF w] init have "\<forall>n\<in>set nbd. length n = length (snd (hd m))" by blast
    from makeDiplotypes_length[OF mk this] ds
    show "\<forall>d\<in>set diplotypes. length d = length (snd (hd m))"
      by (simp add: set_sortUnique)
  qed
qed

theorem allele_count_from_first_region_witness:
  "getGenotypeNodesByNodeRange 500 exampleFs ''sample.vcf'' emptyLocus = Inr [] \<and>
   getCandidateDiplotypes 500 exampleFs ''sample.vcf'' emptyLocus = Some (Inl UndefinedRead) \<and>
   getGenotypeNodesByNodeRange 500 exampleFs ''sample.vcf'' exampleLocus =
     Inr [((1, 1), [[1, 1, 1], [1, 1, 1, 1]])] \<and>
   length (snd (hd [((1 :: nat, 1 :: nat), [[1, 1, 1], [1, 1, 1, 1 :: nat]])])) = 2 \<and>
   length [haplotypePath exampleGraph [0, 1, 1, 1, 2], haplotypePath exampleGraph [0, 1, 1, 1, 1, 2]] = 2"
proof -
  have m: "getGenotypeNodesByNodeRange 500 exampleFs ''sample.vcf'' exampleLocus =
      Inr [((1, 1), [[1, 1, 1], [1, 1, 1, 1]])]"
    unfolding exampleLocus_def by (rule map_34[OF example_lengths]) simp
  have "variantSpecs emptyLocus = []"
    by (simp add: emptyLocus_def)
  with allele_count_from_first_region [of emptyLocus 500 exampleFs "''sample.vcf''" "[]"]
  have "getGenotypeNodesByNodeRange 500 exampleFs ''sample.vcf'' emptyLocus = Inr [] \<and>
        getCandidateDiplotypes 500 exampleFs ''sample.vcf'' emptyLocus = Some (Inl UndefinedRead)"
    by blast
  moreover have "variantSpecs exampleLocus \<noteq> []"
    by (simp add: exampleLocus_def)
  with allele_count_from_first_region [of exampleLocus 500 exampleFs "''sample.vcf''"
      "[((1, 1), [[1, 1, 1], [1, 1, 1, 1]])]"] m example_run
  have "length [haplotypePath exampleGraph [0, 1, 1, 1, 2], haplotypePath exampleGraph [0, 1, 1, 1, 1, 2]] =
        length (snd (hd [((1 :: nat, 1 :: nat), [[1, 1, 1], [1, 1, 1, 1 :: nat]])]))"
    by simp
  ultimately show ?thesis using m by simp
qed

subsection \<open>Capped node vectors of the variants\<close>

lemma variantGenotypeNodes_capped:
  "variantGenotypeNodes meanFragLen fs vcfPath variantSpec = Inr (nodeRange, genotypeNodes) \<Longrightarrow>
   \<exists>repeatLens. extractRepeatLengths fs vcfPath (variantId variantSpec) = Inr repeatLens \<and>
     makeNodeVectors (capLengths meanFragLen repeatLens) (hd (variantNodes variantSpec)) = Inr genotypeNodes"
  by (auto simp: variantGenotypeNodes_def Let_def split: if_splits sum.splits)

lemma variantGenotypeNodes_exists:
  assumes "classificationType variantSpec = kRepeat" and "length (variantNodes variantSpec) = 1"
    and "extractRepeatLengths fs vcfPath (variantId variantSpec) = Inr repeatLens"
    and "length repeatLens \<le> 2" and "0 \<le> meanFragLen" and "\<forall>l\<in>set repeatLens. 0 \<le> l"
  shows "\<exists>nodeRange genotypeNodes.
           variantGenotypeNodes meanFragLen fs vcfPath variantSpec = Inr (nodeRange, genotypeNodes)"
proof -
  from assms(5,6) have "\<forall>l\<in>set (capLengths meanFragLen repeatLens). 0 \<le> l"
    by (auto simp: capLengths_def)
  then have "makeNodeVectors (capLengths meanFragLen repeatLens) (hd (variantNodes variantSpec)) =
      Inr (map (\<lambda>l. replicate (nat l) (hd (variantNodes variantSpec))) (capLengths meanFragLen repeatLens))"
    by (rule makeNodeVectors_nonneg)
  with assms(1-4) show ?thesis
    by (simp add: variantGenotypeNodes_def Let_def capLengths_def)
qed

lemma genotypeNodesLoop_entries:
  "genotypeNodesLoop meanFragLen fs vcfPath vs m0 = Inr m \<Longrightarrow> entry \<in> set m \<Longrightarrow>
   entry \<in> set m0 \<or> (\<exists>v\<in>set vs. variantGenotypeNodes meanFragLen fs vcfPath v = Inr entry)"
proof (induction vs arbitrary: m0)
  case Nil
  then show ?case by simp
next
  case (Cons v vs)
  from Cons.prems(1) obtain nodeRange genotypeNodes where
    one: "variantGenotypeNodes meanFragLen fs vcfPath v = Inr (nodeRange, genotypeNodes)"
    and rest: "genotypeNodesLoop meanFragLen fs vcfPath vs (emplace nodeRange genotypeNodes m0) = Inr m"
    by (auto split: sum.splits)
  from Cons.IH[OF rest Cons.prems(2)]
  consider "entry \<in> set (emplace nodeRange genotypeNodes m0)"
    | "\<exists>u\<in>set vs. variantGenotypeNodes meanFragLen fs vcfPath u = Inr entry"
    by blast
  then show ?case
  proof cases
    case 1
    with set_emplace[of nodeRange genotypeNodes m0]
    have "entry = (nodeRange, genotypeNodes) \<or> entry \<in> set m0" by auto
    with one show ?thesis by auto
  next
    case 2
    then show ?thesis by auto
  qed
qed

lemma capped_example_variant:
  "variantGenotypeNodes 3 exampleFs ''sample.vcf''
     \<lparr>variantId = ''HTT'', classificationType = kRepeat, variantNodes = [1]\<rparr> =
   Inr ((1, 1), [[1, 1, 1], [1, 1, 1]])"
  by (simp add: variantGenotypeNodes_def example_lengths capLengths_def nodeIdMax_def nodeIdLowest_def
      replicate_numeral)

lemma capped_example_map:
  "getGenotypeNodesByNodeRange 3 exampleFs ''sample.vcf'' exampleLocus =
     Inr [((1, 1), [[1, 1, 1], [1, 1, 1]])]"
  by (simp add: getGenotypeNodesByNodeRange_def exampleLocus_def capped_example_variant
      del: One_nat_def)

text \<open>
  C3. The node vector that \<open>getGenotypeNodesByNodeRange\<close> stores for an allele whose
  length is above the mean-fragment-length bound holds exactly \<open>bound\<close> copies of the
  variant's repeat node; for an allele whose length is at most the bound it holds exactly
  \<open>length\<close> copies. Every entry of the returned map is the entry of a variant of the locus,
  the entry of a variant has one node vector per extracted length, and the vectors exist
  whenever the bound and the lengths are not negative.
\<close>

theorem capped_node_vectors:
  "(getGenotypeNodesByNodeRange meanFragLen fs vcfPath locusSpec = Inr genotypeNodesByNodeRange \<longrightarrow>
      (\<forall>entry\<in>set genotypeNodesByNodeRange. \<exists>v\<in>set (variantSpecs locusSpec).
          variantGenotypeNodes meanFragLen fs vcfPath v = Inr entry)) \<and>
   (variantGenotypeNodes meanFragLen fs vcfPath variantSpec = Inr (nodeRange, genotypeNodes) \<longrightarrow>
      (\<exists>repeatLens.
          extractRepeatLengths fs vcfPath (variantId variantSpec) = Inr repeatLens \<and>
          length genotypeNodes = length repeatLens \<and>
          (\<forall>i<length repeatLens.
             (meanFragLen < repeatLens ! i \<longrightarrow>
                genotypeNodes ! i = replicate (nat meanFragLen) (hd (variantNodes variantSpec)) \<and>
                int (length (genotypeNodes ! i)) = meanFragLen) \<and>
             (repeatLens ! i \<le> meanFragLen \<longrightarrow>
                genotypeNodes ! i = replicate (nat (repeatLens ! i)) (hd (variantNodes variantSpec)) \<and>
                int (length (genotypeNodes ! i)) = repeatLens ! i)))) \<and>
   (classificationType variantSpec = kRepeat \<and> length (variantNodes variantSpec) = 1 \<and>
    extractRepeatLengths fs vcfPath (variantId variantSpec) = Inr lengths \<and> length lengths \<le> 2 \<and>
    0 \<le> meanFragLen \<and> (\<forall>l\<in>set lengths. 0 \<le> l) \<longrightarrow>
      (\<exists>range vectors. variantGenotypeNodes meanFragLen fs vcfPath variantSpec = Inr (range, vectors))) \<and>
   (makeNodeVectors (capLengths bound lengths) repeatNode = Inr vs \<longrightarrow>
      length vs = length lengths \<and>
      (\<forall>i<length lengths.
         (bound < lengths ! i \<longrightarrow> vs ! i = replicate (nat bound) repeatNode \<and> int (length (vs ! i)) = bound) \<and>
         (lengths ! i \<le> bound \<longrightarrow>
            vs ! i = replicate (nat (lengths ! i)) repeatNode \<and> int (length (vs ! i)) = lengths ! i))) \<and>
   (0 \<le> bound \<and> (\<forall>l\<in>set lengths. 0 \<le> l) \<longrightarrow>
      (\<exists>vs. makeNodeVectors (capLengths bound lengths) repeatNode = Inr vs))"
proof -
  have entries: "getGenotypeNodesByNodeRange meanFragLen fs vcfPath locusSpec = Inr genotypeNodesByNodeRange \<longrightarrow>
      (\<forall>entry\<in>set genotypeNodesByNodeRange. \<exists>v\<in>set (variantSpecs locusSpec).
          variantGenotypeNodes meanFragLen fs vcfPath v = Inr entry)"
    unfolding getGenotypeNodesByNodeRange_def
    using genotypeNodesLoop_entries[of meanFragLen fs vcfPath "variantSpecs locusSpec" "[]"]
    by auto
  have variant: "variantGenotypeNodes meanFragLen fs vcfPath variantSpec = Inr (nodeRange, genotypeNodes) \<longrightarrow>
      (\<exists>repeatLens.
          extractRepeatLengths fs vcfPath (variantId variantSpec) = Inr repeatLens \<and>
          length genotypeNodes = length repeatLens \<and>
          (\<forall>i<length repeatLens.
             (meanFragLen < repeatLens ! i \<longrightarrow>
                genotypeNodes ! i = replicate (nat meanFragLen) (hd (variantNodes variantSpec)) \<and>
                int (length (genotypeNodes ! i)) = meanFragLen) \<and>
             (repeatLens ! i \<le> meanFragLen \<longrightarrow>
                genotypeNodes ! i = replicate (nat (repeatLens ! i)) (hd (variantNodes variantSpec)) \<and>
                int (length (genotypeNodes ! i)) = repeatLens ! i)))"
  proof
    assume "variantGenotypeNodes meanFragLen fs vcfPath variantSpec = Inr (nodeRange, genotypeNodes)"
    from variantGenotypeNodes_capped[OF this] obtain repeatLens where
      e: "extractRepeatLengths fs vcfPath (variantId variantSpec) = Inr repeatLens"
      and m: "makeNodeVectors (capLengths meanFragLen repeatLens) (hd (variantNodes variantSpec)) =
              Inr genotypeNodes"
      by blast
    from makeNodeVectors_capped[of meanFragLen repeatLens "hd (variantNodes variantSpec)" genotypeNodes] m e
    show "\<exists>repeatLens.
          extractRepeatLengths fs vcfPath (variantId variantSpec) = Inr repeatLens \<and>
          length genotypeNodes = length repeatLens \<and>
          (\<forall>i<length repeatLens.
             (meanFragLen < repeatLens ! i \<longrightarrow>
                genotypeNodes ! i = replicate (nat meanFragLen) (hd (variantNodes variantSpec)) \<and>
                int (length (genotypeNodes ! i)) = meanFragLen) \<and>
             (repeatLens ! i \<le> meanFragLen \<longrightarrow>
                genotypeNodes ! i = replicate (nat (repeatLens ! i)) (hd (variantNodes variantSpec)) \<and>
                int (length (genotypeNodes ! i)) = repeatLens ! i))"
      by blast
  qed
  have exists: "classificationType variantSpec = kRepeat \<and> length (variantNodes variantSpec) = 1 \<and>
    extractRepeatLengths fs vcfPath (variantId variantSpec) = Inr lengths \<and> length lengths \<le> 2 \<and>
    0 \<le> meanFragLen \<and> (\<forall>l\<in>set lengths. 0 \<le> l) \<longrightarrow>
      (\<exists>range vectors. variantGenotypeNodes meanFragLen fs vcfPath variantSpec = Inr (range, vectors))"
    by (blast intro: variantGenotypeNodes_exists)
  from entries variant exists makeNodeVectors_capped[of bound lengths repeatNode vs]
  show ?thesis by blast
qed

theorem capped_node_vectors_witness:
  "getGenotypeNodesByNodeRange 3 exampleFs ''sample.vcf'' exampleLocus =
     Inr [((1, 1), [[1, 1, 1], [1, 1, 1]])] \<and>
   extractRepeatLengths exampleFs ''sample.vcf'' ''HTT'' = Inr [3, 4] \<and>
   [[1, 1, 1], [1, 1, 1 :: nat]] ! 1 = replicate (nat 3) 1 \<and>
   int (length ([[1, 1, 1], [1, 1, 1 :: nat]] ! 1)) = 3 \<and>
   makeNodeVectors (capLengths 3 [5, 2]) 1 = Inr [[1, 1, 1], [1, 1]]"
proof -
  note inst = capped_node_vectors [of 3 exampleFs "''sample.vcf''" exampleLocus
      "[((1, 1), [[1, 1, 1], [1, 1, 1]])]"
      "\<lparr>variantId = ''HTT'', classificationType = kRepeat, variantNodes = [1]\<rparr>"
      "(1, 1)" "[[1, 1, 1], [1, 1, 1]]" "[5, 2]" 3 1 "[[1, 1, 1], [1, 1]]"]
  have m: "makeNodeVectors (capLengths 3 [5, 2]) 1 = Inr [[1, 1, 1], [1, 1]]"
    by (simp add: capLengths_def replicate_numeral)
  from inst capped_example_variant obtain repeatLens where
    e: "extractRepeatLengths exampleFs ''sample.vcf'' ''HTT'' = Inr repeatLens"
    and c: "\<forall>i<length repeatLens.
             (3 < repeatLens ! i \<longrightarrow>
                [[1, 1, 1], [1, 1, 1 :: nat]] ! i = replicate (nat 3) 1 \<and>
                int (length ([[1, 1, 1], [1, 1, 1 :: nat]] ! i)) = 3) \<and>
             (repeatLens ! i \<le> 3 \<longrightarrow>
                [[1, 1, 1], [1, 1, 1 :: nat]] ! i = replicate (nat (repeatLens ! i)) 1 \<and>
                int (length ([[1, 1, 1], [1, 1, 1 :: nat]] ! i)) = repeatLens ! i)"
    by auto
  from e example_lengths have r: "repeatLens = [3, 4]" by simp
  from c[unfolded r, rule_format, of 1]
  have "[[1, 1, 1], [1, 1, 1 :: nat]] ! 1 = replicate (nat 3) 1 \<and>
        int (length ([[1, 1, 1], [1, 1, 1 :: nat]] ! 1)) = 3"
    by simp
  with capped_example_map example_lengths m show ?thesis by simp
qed

end
